theory Spec2Isabelle
  imports
    Main
    "HOL-Library.Multiset"
    "HOL-Library.Word"
    "HOL-Library.Char_ord"
    "HOL-Library.List_Lexorder"
begin

section \<open>Triangles on the lattice (triangles.go, lines 20-121)\<close>

text \<open>
  The Go program addresses a unit triangle by three coupled coordinates of type \<open>int\<close>,
  a two's complement integer of 64 bits on the usual platforms: the coordinates, the
  shift amounts and everything computed from them are words of 64 bits, so that \<open>+\<close>,
  \<open>-\<close> and negation wrap around as the Go operations do, while comparisons and printing
  read a word as a signed number (\<open>sint\<close>). The small control values of the program (an
  axis, a rotation step, a loop index, the number of triangles still to add, the length
  of a slice) take part in no arithmetic that could wrap and are integers.

  Methods of \<open>*triangle\<close> and of \<open>*pattern\<close> that share a name in Go are told
  apart here by the prefix \<open>triangle_\<close> or \<open>pattern_\<close>.
\<close>

type_synonym goInt = "64 word"

record triangle =
  x :: goInt
  y :: goInt
  z :: goInt

definition newTriangle :: "goInt \<Rightarrow> goInt \<Rightarrow> goInt \<Rightarrow> triangle" where
  "newTriangle a b c = \<lparr>x = a, y = b, z = c\<rparr>"

definition triangle_getCopy :: "triangle \<Rightarrow> triangle" where
  "triangle_getCopy t = newTriangle (x t) (y t) (z t)"

definition triangle_isEqual :: "triangle \<Rightarrow> triangle \<Rightarrow> bool" where
  "triangle_isEqual t other \<longleftrightarrow> x t = x other \<and> y t = y other \<and> z t = z other"

definition getCoord :: "triangle \<Rightarrow> int \<Rightarrow> goInt" where
  "getCoord t axis =
     (if axis = 1 then x t
      else if axis = 2 then y t
      else if axis = 3 then z t
      else 0)"

definition getNeighbourCoords :: "triangle \<Rightarrow> int \<Rightarrow> goInt \<times> goInt \<times> goInt" where
  "getNeighbourCoords t axis =
     (let look = x t + y t + z t in
      if axis = 1 then (x t, y t - look, z t - look)
      else if axis = 2 then (x t - look, y t, z t - look)
      else if axis = 3 then (x t - look, y t - look, z t)
      else (0, 0, 0))"

definition getNeighbour :: "triangle \<Rightarrow> int \<Rightarrow> triangle" where
  "getNeighbour t axis = (case getNeighbourCoords t axis of (a, b, c) \<Rightarrow> newTriangle a b c)"

definition getRotatedCoords :: "triangle \<Rightarrow> int \<Rightarrow> goInt \<times> goInt \<times> goInt" where
  "getRotatedCoords t angle =
     (if angle = 1 then (- y t, - z t, - x t)
      else if angle = 2 then (z t, x t, y t)
      else if angle = 3 then (- x t, - y t, - z t)
      else if angle = 4 then (y t, z t, x t)
      else if angle = 5 then (- z t, - x t, - y t)
      else (x t, y t, z t))"

definition triangle_getRotated :: "triangle \<Rightarrow> int \<Rightarrow> triangle" where
  "triangle_getRotated t angle =
     (case getRotatedCoords t angle of (a, b, c) \<Rightarrow> newTriangle a b c)"

definition getReflectedCoords :: "triangle \<Rightarrow> int \<Rightarrow> goInt \<times> goInt \<times> goInt" where
  "getReflectedCoords t axis =
     (if axis = 1 then (- x t, - z t, - y t)
      else if axis = 2 then (- z t, - y t, - x t)
      else if axis = 3 then (- y t, - x t, - z t)
      else (x t, y t, z t))"

definition triangle_getReflected :: "triangle \<Rightarrow> int \<Rightarrow> triangle" where
  "triangle_getReflected t axis =
     (case getReflectedCoords t axis of (a, b, c) \<Rightarrow> newTriangle a b c)"

definition getShiftedCoords :: "triangle \<Rightarrow> goInt \<Rightarrow> int \<Rightarrow> goInt \<times> goInt \<times> goInt" where
  "getShiftedCoords t shift axis =
     (if axis = 1 then (x t, y t + shift, z t - shift)
      else if axis = 2 then (x t - shift, y t, z t + shift)
      else if axis = 3 then (x t + shift, y t - shift, z t)
      else (x t, y t, z t))"

definition triangle_getShifted :: "triangle \<Rightarrow> goInt \<Rightarrow> int \<Rightarrow> triangle" where
  "triangle_getShifted t shift axis =
     (case getShiftedCoords t shift axis of (a, b, c) \<Rightarrow> newTriangle a b c)"

text \<open>
  The coordinate sum of a cell, computed as the program computes it in
  \<open>getNeighbourCoords\<close>; its sign is the orientation of the triangle.
\<close>

definition coordSum :: "triangle \<Rightarrow> goInt" where
  "coordSum t = x t + y t + z t"

lemmas triangle_defs =
  newTriangle_def triangle_getCopy_def triangle_isEqual_def getCoord_def
  getNeighbourCoords_def getNeighbour_def getRotatedCoords_def triangle_getRotated_def
  getReflectedCoords_def triangle_getReflected_def getShiftedCoords_def
  triangle_getShifted_def coordSum_def

section \<open>Fingerprint strings (fmt.Sprintf, sort.Strings, strings.Join)\<close>

text \<open>
  \<open>validateHash\<close> prints every triangle with \<open>fmt.Sprintf("%d,%d,%d", ...)\<close>, sorts the
  strings with \<open>sort.Strings\<close> and joins them with a single space. The verb \<open>%d\<close> prints
  the signed value as a decimal numeral, with a leading minus sign for a negative number.
  Go compares strings byte by byte, a proper prefix first: the lexicographic order of
  \<open>char list\<close>.
\<close>

definition digitChar :: "nat \<Rightarrow> char" where
  "digitChar d = ''0123456789'' ! d"

function formatNat :: "nat \<Rightarrow> string" where
  "formatNat n = (if n < 10 then [digitChar n] else formatNat (n div 10) @ [digitChar (n mod 10)])"
  by pat_completeness auto
termination
  by (relation "measure (\<lambda>n. n)") auto

declare formatNat.simps [simp del]

definition formatInt :: "int \<Rightarrow> string" where
  "formatInt i = (if i < 0 then CHR ''-'' # formatNat (nat (- i)) else formatNat (nat i))"

definition sprintfTriple :: "goInt \<Rightarrow> goInt \<Rightarrow> goInt \<Rightarrow> string" where
  "sprintfTriple a b c =
     formatInt (sint a) @ '','' @ formatInt (sint b) @ '','' @ formatInt (sint c)"

fun stringsJoin :: "string list \<Rightarrow> string \<Rightarrow> string" where
  "stringsJoin [] sep = []"
| "stringsJoin [a] sep = a"
| "stringsJoin (a # b # rest) sep = a @ sep @ stringsJoin (b # rest) sep"

definition sortStrings :: "string list \<Rightarrow> string list" where
  "sortStrings arr = sort arr"

section \<open>Patterns (triangles.go, lines 148-323)\<close>

text \<open>
  A pattern holds its triangles in insertion order together with the cached fingerprint
  and the flag that says whether the cache is valid. Methods that Go runs on a pointer
  and that mutate the receiver (\<open>validateHash\<close>, \<open>addTriangle\<close>) return the updated
  pattern. A \<open>*pattern\<close> that may be \<open>nil\<close> is a \<open>pattern option\<close>, and calling a method
  that reads a field on \<open>nil\<close> (a run-time panic) is the result \<open>None\<close>.
\<close>

record pattern =
  triangles :: "triangle list"
  patternHash :: string
  validHash :: bool

definition newPattern :: pattern where
  "newPattern = \<lparr>triangles = [], patternHash = [], validHash = False\<rparr>"

definition validateHash :: "pattern \<Rightarrow> pattern" where
  "validateHash p =
     (if \<not> validHash p then
        (let arr = map (\<lambda>t. sprintfTriple (x t) (y t) (z t)) (triangles p);
             arr = sortStrings arr
         in p\<lparr>patternHash := stringsJoin arr '' '', validHash := True\<rparr>)
      else p)"

definition addTriangle :: "pattern \<Rightarrow> triangle \<Rightarrow> pattern" where
  "addTriangle p t = p\<lparr>triangles := triangles p @ [t], validHash := False\<rparr>"

definition pattern_getCopy :: "pattern \<Rightarrow> pattern" where
  "pattern_getCopy p =
     validateHash
       (foldl (\<lambda>pCopy t. addTriangle pCopy (triangle_getCopy t)) newPattern (triangles p))"

definition pattern_len :: "pattern \<Rightarrow> int" where
  "pattern_len p = int (length (triangles p))"

fun containsFrom :: "triangle list \<Rightarrow> triangle \<Rightarrow> bool" where
  "containsFrom [] t = False"
| "containsFrom (u # us) t = (if triangle_isEqual u t then True else containsFrom us t)"

definition contains :: "pattern \<Rightarrow> triangle \<Rightarrow> bool" where
  "contains p t = containsFrom (triangles p) t"

text \<open>The comparisons of \<open>getMinCoord\<close> and \<open>getMaxCoord\<close> are signed, as on Go's \<open>int\<close>.\<close>

definition getMinCoord :: "pattern \<Rightarrow> int \<Rightarrow> goInt" where
  "getMinCoord p axis =
     (case triangles p of
        [] \<Rightarrow> 0
      | t0 # rest \<Rightarrow>
          foldl (\<lambda>minCoord t.
                   let currCoord = getCoord t axis in
                   if currCoord <s minCoord then currCoord else minCoord)
                (getCoord t0 axis) rest)"

definition getMaxCoord :: "pattern \<Rightarrow> int \<Rightarrow> goInt" where
  "getMaxCoord p axis =
     (case triangles p of
        [] \<Rightarrow> 0
      | t0 # rest \<Rightarrow>
          foldl (\<lambda>maxCoord t.
                   let currCoord = getCoord t axis in
                   if maxCoord <s currCoord then currCoord else maxCoord)
                (getCoord t0 axis) rest)"

definition pattern_getShifted :: "pattern \<Rightarrow> goInt \<Rightarrow> int \<Rightarrow> pattern" where
  "pattern_getShifted p shift axis =
     foldl (\<lambda>shifted t. addTriangle shifted (triangle_getShifted t shift axis))
           newPattern (triangles p)"

definition pattern_getRotated :: "pattern \<Rightarrow> int \<Rightarrow> pattern" where
  "pattern_getRotated p angle =
     foldl (\<lambda>rotated t. addTriangle rotated (triangle_getRotated t angle))
           newPattern (triangles p)"

definition pattern_getReflected :: "pattern \<Rightarrow> int \<Rightarrow> pattern" where
  "pattern_getReflected p axis =
     foldl (\<lambda>reflected t. addTriangle reflected (triangle_getReflected t axis))
           newPattern (triangles p)"

text \<open>
  \<open>getAligned\<close> leaves its result \<open>nil\<close> when \<open>freeAxis\<close> is none of 1, 2, 3.
\<close>

definition getAligned :: "pattern \<Rightarrow> int \<Rightarrow> pattern option" where
  "getAligned p freeAxis =
     (if freeAxis = 1 then
        (let max_coord = getMaxCoord p 2;
             aligned = pattern_getShifted p max_coord 3;
             min_coord = getMinCoord aligned 3
         in Some (pattern_getShifted aligned (- min_coord) 2))
      else if freeAxis = 2 then
        (let max_coord = getMaxCoord p 3;
             aligned = pattern_getShifted p max_coord 1;
             min_coord = getMinCoord aligned 1
         in Some (pattern_getShifted aligned (- min_coord) 3))
      else if freeAxis = 3 then
        (let max_coord = getMaxCoord p 1;
             aligned = pattern_getShifted p max_coord 2;
             min_coord = getMinCoord aligned 2
         in Some (pattern_getShifted aligned (- min_coord) 1))
      else None)"

text \<open>
  Go's integer division truncates the quotient of the signed values toward zero (HOL's
  \<open>div\<close> rounds down) and wraps the result. The only divisor in the program is the
  constant 2.
\<close>

definition truncQuo :: "int \<Rightarrow> int \<Rightarrow> int" where
  "truncQuo a b = (if (a < 0) = (b < 0) then \<bar>a\<bar> div \<bar>b\<bar> else - (\<bar>a\<bar> div \<bar>b\<bar>))"

definition goQuo :: "goInt \<Rightarrow> goInt \<Rightarrow> goInt" where
  "goQuo a b = word_of_int (truncQuo (sint a) (sint b))"

definition getCentered :: "pattern \<Rightarrow> pattern" where
  "getCentered p =
     (let min_coord = getMinCoord p 1;
          max_coord = getMaxCoord p 1;
          mean_coord = goQuo (min_coord + max_coord) 2;
          centered = pattern_getShifted p mean_coord 2;
          min_coord = getMinCoord centered 2;
          max_coord = getMaxCoord centered 2;
          mean_coord = goQuo (min_coord + max_coord) 2
      in pattern_getShifted centered (- mean_coord) 1)"

text \<open>
  \<open>isEqual\<close> on patterns: the loop over \<open>i = 1..6\<close> (one rotation step each) with the
  inner loop over \<open>j = 1, 2\<close> (unreflected, reflected) written out, leaving both loops
  at the first equal fingerprint.
\<close>

function isEqualLoop :: "int \<Rightarrow> int \<Rightarrow> pattern \<Rightarrow> pattern \<Rightarrow> bool option" where
  "isEqualLoop freeAxis i pAligned otherRotated =
     (if i \<le> 6 then
        (case getAligned otherRotated freeAxis of
           None \<Rightarrow> None
         | Some otherAligned \<Rightarrow>
             if patternHash pAligned = patternHash (validateHash otherAligned) then Some True
             else
               (case getAligned (pattern_getReflected otherRotated freeAxis) freeAxis of
                  None \<Rightarrow> None
                | Some otherAligned \<Rightarrow>
                    if patternHash pAligned = patternHash (validateHash otherAligned)
                    then Some True
                    else isEqualLoop freeAxis (i + 1) pAligned
                           (if i < 6 then pattern_getRotated otherRotated 1
                            else otherRotated)))
      else Some False)"
  by pat_completeness auto
termination
  by (relation "measure (\<lambda>(freeAxis, i, pAligned, otherRotated). nat (7 - i))") auto

declare isEqualLoop.simps [simp del]

definition pattern_isEqual :: "pattern \<Rightarrow> pattern \<Rightarrow> bool option" where
  "pattern_isEqual p other =
     (let freeAxis = 3 in
      case getAligned p freeAxis of
        None \<Rightarrow> None
      | Some pAligned \<Rightarrow> isEqualLoop freeAxis 1 (validateHash pAligned) other)"

section \<open>The collection and the enumerator (triangles.go, lines 461-527)\<close>

record patternsCollection =
  patterns :: "pattern list"

definition newPatternsCollection :: patternsCollection where
  "newPatternsCollection = \<lparr>patterns = []\<rparr>"

text \<open>
  The search for an equal stored pattern (the loop over \<open>j\<close> with its \<open>break\<close>); the
  result is the flag \<open>foundNewPattern\<close>.
\<close>

fun foundNewPatternFrom :: "pattern list \<Rightarrow> pattern \<Rightarrow> bool option" where
  "foundNewPatternFrom [] newSketch = Some True"
| "foundNewPatternFrom (p # ps) newSketch =
     (case pattern_isEqual p newSketch of
        None \<Rightarrow> None
      | Some True \<Rightarrow> Some False
      | Some False \<Rightarrow> foundNewPatternFrom ps newSketch)"

text \<open>
  The finalisation of a full sketch; the Go source has this block twice, word for word
  (lines 490-499 and 513-522).
\<close>

definition storeIfNew :: "patternsCollection \<Rightarrow> pattern \<Rightarrow> patternsCollection option" where
  "storeIfNew pc newSketch =
     (case foundNewPatternFrom (patterns pc) newSketch of
        None \<Rightarrow> None
      | Some foundNewPattern \<Rightarrow>
          if foundNewPattern
          then Some (pc\<lparr>patterns := patterns pc @ [getCentered newSketch]\<rparr>)
          else Some pc)"

text \<open>A loop whose body may panic: the state is threaded through, a panic ends it.\<close>

fun forEach :: "('a \<Rightarrow> 's \<Rightarrow> 's option) \<Rightarrow> 'a list \<Rightarrow> 's \<Rightarrow> 's option" where
  "forEach body [] s = Some s"
| "forEach body (a # as) s =
     (case body a s of None \<Rightarrow> None | Some s' \<Rightarrow> forEach body as s')"

lemma forEach_cong [fundef_cong]:
  "as = bs \<Longrightarrow> s = s' \<Longrightarrow> (\<And>a r. a \<in> set bs \<Longrightarrow> body a r = body' a r)
     \<Longrightarrow> forEach body as s = forEach body' bs s'"
  by (induction bs arbitrary: as s s') (auto split: option.splits)

text \<open>
  \<open>generatePatterns\<close>: the collection \<open>pc\<close> is the receiver, mutated in place by the
  Go code and returned here. In the third branch the two nested loops run over the
  indices of the sketch and over the axes 1, 2, 3.
\<close>

function generatePatterns ::
  "int \<Rightarrow> pattern \<Rightarrow> patternsCollection \<Rightarrow> patternsCollection option" where
  "generatePatterns toAdd sketch pc =
     (if pattern_len sketch = 0 then
        (let sketch = addTriangle sketch (newTriangle 0 1 0) in
         if toAdd > 1 then generatePatterns (toAdd - 1) sketch pc
         else Some (pc\<lparr>patterns := patterns pc @ [sketch]\<rparr>))
      else if pattern_len sketch \<le> 2 then
        (let neighbour = getNeighbour (triangles sketch ! 0) (pattern_len sketch);
             newSketch = addTriangle (pattern_getCopy sketch) neighbour
         in if toAdd > 1 then generatePatterns (toAdd - 1) newSketch pc
            else storeIfNew pc newSketch)
      else
        forEach
          (\<lambda>(i, axis) pc.
             let neighbour = getNeighbour (triangles sketch ! i) axis in
             if contains sketch neighbour then Some pc
             else
               (let newSketch = addTriangle (pattern_getCopy sketch) neighbour
                in if toAdd > 1 then generatePatterns (toAdd - 1) newSketch pc
                   else storeIfNew pc newSketch))
          (concat (map (\<lambda>i. map (\<lambda>axis. (i, axis)) [1, 2, 3])
                       [0 ..< length (triangles sketch)]))
          pc)"
  by pat_completeness auto
termination
  by (relation "measure (\<lambda>(toAdd, sketch, pc). nat toAdd)") auto

declare generatePatterns.simps [simp del]

section \<open>The program (triangles.go, lines 529-549)\<close>

definition minNumTriangles :: int where
  "minNumTriangles = 4"

definition maxNumTriangles :: int where
  "maxNumTriangles = 16"

text \<open>
  \<open>main\<close> reads the number of triangles, prints the message \<open>Invalid value\<close> (in
  Russian) and returns when the number is out of range, and otherwise enumerates and
  hands every stored pattern to the drawing code, one image file per pattern. The
  drawing and the files are outside this development: the result of a run is either
  the message or the list of patterns drawn.
\<close>

datatype outcome = InvalidValueMessage | Images "pattern list"

definition main :: "int \<Rightarrow> outcome option" where
  "main numTriangles =
     (if numTriangles < minNumTriangles \<or> numTriangles > maxNumTriangles
      then Some InvalidValueMessage
      else
        (let pattCol = newPatternsCollection;
             sk = newPattern
         in case generatePatterns numTriangles sk pattCol of
              None \<Rightarrow> None
            | Some pattCol \<Rightarrow> Some (Images (patterns pattCol))))"

section \<open>Notions used in the statements\<close>

text \<open>
  A pattern as the transformations build it: the given triangles, no cached fingerprint.
\<close>

definition freshPattern :: "triangle list \<Rightarrow> pattern" where
  "freshPattern ts = \<lparr>triangles = ts, patternHash = [], validHash = False\<rparr>"

text \<open>The fingerprint that \<open>validateHash\<close> computes for a list of triangles.\<close>

definition fingerprint :: "triangle list \<Rightarrow> string" where
  "fingerprint ts =
     stringsJoin (sortStrings (map (\<lambda>t. sprintfTriple (x t) (y t) (z t)) ts)) '' ''"

text \<open>
  A lattice translation, with the wrap-around of the program: the three shift
  directions of \<open>getShifted\<close> are the translations by \<open>(0, k)\<close>, \<open>(- k, 0)\<close> and
  \<open>(k, - k)\<close>.
\<close>

definition translate :: "goInt \<Rightarrow> goInt \<Rightarrow> triangle \<Rightarrow> triangle" where
  "translate a b t = newTriangle (x t + a) (y t + b) (z t - a - b)"

text \<open>The triangles of \<open>getAligned p 3\<close>, for \<open>p\<close> with the triangles \<open>ts\<close>.\<close>

definition alignedCells :: "triangle list \<Rightarrow> triangle list" where
  "alignedCells ts =
     (let p = freshPattern ts;
          aligned = pattern_getShifted p (getMaxCoord p 1) 2
      in triangles (pattern_getShifted aligned (- getMinCoord aligned 2) 1))"

definition isDigit :: "char \<Rightarrow> bool" where
  "isDigit c \<longleftrightarrow> (\<exists>d<10. c = digitChar d)"

text \<open>
  The twelve lattice symmetries that \<open>isEqual\<close> tries: a rotation by \<open>k\<close> steps
  (\<open>k\<close> from 0 to 5), then optionally the reflection along axis 3.
\<close>

definition symmetry :: "int \<Rightarrow> bool \<Rightarrow> triangle \<Rightarrow> triangle" where
  "symmetry k r t =
     (if r then triangle_getReflected (triangle_getRotated t k) 3 else triangle_getRotated t k)"

text \<open>
  Two lists of cells are equivalent when the aligned first list has the fingerprint of
  the aligned image of the second list under one of the twelve symmetries.
\<close>

definition equivalentCells :: "triangle list \<Rightarrow> triangle list \<Rightarrow> bool" where
  "equivalentCells ts us \<longleftrightarrow>
     (\<exists>k \<in> {0..5}. \<exists>r.
        fingerprint (alignedCells ts) = fingerprint (alignedCells (map (symmetry k r) us)))"

text \<open>
  The fingerprint that \<open>isEqual\<close> reads off a pattern: align with \<open>freeAxis = 3\<close>,
  then \<open>validateHash\<close>, then the field \<open>patternHash\<close>.
\<close>

definition alignedHash :: "pattern \<Rightarrow> string option" where
  "alignedHash p =
     (case getAligned p 3 of
        None \<Rightarrow> None
      | Some aligned \<Rightarrow> Some (patternHash (validateHash aligned)))"

text \<open>
  The alignment as the specification words it, for comparison with \<open>getAligned p 3\<close>:
  shift along axis 3 by the maximum coordinate along axis 2, then shift the result along
  axis 2 by the negative of the result's minimum coordinate along axis 3.
\<close>

definition alignAsSpecified :: "pattern \<Rightarrow> pattern" where
  "alignAsSpecified p =
     (let shifted = pattern_getShifted p (getMaxCoord p 2) 3
      in pattern_getShifted shifted (- getMinCoord shifted 3) 2)"

text \<open>The triangles of \<open>getCentered p\<close>, for \<open>p\<close> with the triangles \<open>ts\<close>.\<close>

definition centeredCells :: "triangle list \<Rightarrow> triangle list" where
  "centeredCells ts = triangles (getCentered (freshPattern ts))"

text \<open>
  The sketches \<open>generatePatterns\<close> passes on or finalises when it is called with a sketch
  of the triangles \<open>ts\<close>: the seed for the empty sketch, the neighbour of the first
  triangle along the axis \<open>length ts\<close> for one or two triangles, and otherwise every
  neighbour of a triangle of the sketch that the sketch does not contain.
\<close>

definition extends :: "triangle list \<Rightarrow> triangle list \<Rightarrow> bool" where
  "extends ts us \<longleftrightarrow>
     (ts = [] \<and> us = [newTriangle 0 1 0])
     \<or> (1 \<le> length ts \<and> length ts \<le> 2
          \<and> us = ts @ [getNeighbour (ts ! 0) (int (length ts))])
     \<or> (3 \<le> length ts
          \<and> (\<exists>t \<in> set ts. \<exists>axis \<in> {1, 2, 3}.
                getNeighbour t axis \<notin> set ts \<and> us = ts @ [getNeighbour t axis]))"

text \<open>
  Adjacency inside a set of cells, and connectedness of a list of cells: every cell is
  reachable from every other one by steps to a neighbour inside the list.
\<close>

definition neighbourSteps :: "triangle set \<Rightarrow> (triangle \<times> triangle) set" where
  "neighbourSteps S =
     {(t, u). t \<in> S \<and> u \<in> S \<and> (\<exists>axis \<in> {1, 2, 3}. u = getNeighbour t axis)}"

definition connectedCells :: "triangle list \<Rightarrow> bool" where
  "connectedCells ts \<longleftrightarrow>
     (\<forall>t \<in> set ts. \<forall>u \<in> set ts. (t, u) \<in> (neighbourSteps (set ts))\<^sup>*)"

text \<open>The sign invariant of a cell: the coordinate sum is +1 or -1.\<close>

definition validSign :: "triangle \<Rightarrow> bool" where
  "validSign t \<longleftrightarrow> coordSum t = 1 \<or> coordSum t = - 1"

text \<open>
  What holds of every sketch the enumerator builds: no cell twice, connected, every
  cell with a valid sign, and a sketch of two cells is a cell and its neighbour along
  axis 1.
\<close>

definition goodSketch :: "triangle list \<Rightarrow> bool" where
  "goodSketch ts \<longleftrightarrow>
     distinct ts \<and> connectedCells ts \<and> (\<forall>t \<in> set ts. validSign t)
     \<and> (length ts = 2 \<longrightarrow> ts ! 1 = getNeighbour (ts ! 0) 1)"

text \<open>
  The three patterns of four triangles that the enumeration for size 4 stores, as
  \<open>getCentered\<close> returns them.
\<close>

definition tetriamonds :: "pattern list" where
  "tetriamonds =
     [freshPattern [newTriangle 0 1 0, newTriangle 0 0 (- 1), newTriangle (- 1) 1 (- 1),
                    newTriangle (- 1) 0 0],
      freshPattern [newTriangle 0 1 0, newTriangle 0 0 (- 1), newTriangle (- 1) 1 (- 1),
                    newTriangle 1 0 0],
      freshPattern [newTriangle 0 1 0, newTriangle 0 0 (- 1), newTriangle (- 1) 1 (- 1),
                    newTriangle 1 1 (- 1)]]"

text \<open>
  A bound on the absolute value of the three coordinates of a cell, read as signed
  numbers.
\<close>

definition coordBound :: "int \<Rightarrow> triangle \<Rightarrow> bool" where
  "coordBound b t \<longleftrightarrow> \<bar>sint (x t)\<bar> \<le> b \<and> \<bar>sint (y t)\<bar> \<le> b \<and> \<bar>sint (z t)\<bar> \<le> b"

subsection \<open>The same notions on cells without wrap-around\<close>

text \<open>
  The signed values of the coordinates of a cell, and translation, alignment, the twelve
  symmetries, the fingerprint and equivalence on triples of integers. As long as no
  coordinate comes near the limits of a word, the program computes these.
\<close>

type_synonym icell = "int \<times> int \<times> int"

definition cellValue :: "triangle \<Rightarrow> icell" where
  "cellValue t = (sint (x t), sint (y t), sint (z t))"

fun formatCell :: "icell \<Rightarrow> string" where
  "formatCell (a, b, c) = formatInt a @ '','' @ formatInt b @ '','' @ formatInt c"

definition fingerprintZ :: "icell list \<Rightarrow> string" where
  "fingerprintZ cs = stringsJoin (sortStrings (map formatCell cs)) '' ''"

fun translateZ :: "int \<Rightarrow> int \<Rightarrow> icell \<Rightarrow> icell" where
  "translateZ a b (p, q, r) = (p + a, q + b, r - a - b)"

definition alignedZ :: "icell list \<Rightarrow> icell list" where
  "alignedZ cs =
     map (translateZ (- Max ((\<lambda>(p, q, r). p) ` set cs)) (- Min ((\<lambda>(p, q, r). q) ` set cs))) cs"

fun rotateZ :: "int \<Rightarrow> icell \<Rightarrow> icell" where
  "rotateZ k (p, q, r) =
     (if k = 1 then (- q, - r, - p)
      else if k = 2 then (r, p, q)
      else if k = 3 then (- p, - q, - r)
      else if k = 4 then (q, r, p)
      else if k = 5 then (- r, - p, - q)
      else (p, q, r))"

fun reflectZ :: "icell \<Rightarrow> icell" where
  "reflectZ (p, q, r) = (- q, - p, - r)"

definition symmetryZ :: "int \<Rightarrow> bool \<Rightarrow> icell \<Rightarrow> icell" where
  "symmetryZ k r c = (if r then reflectZ (rotateZ k c) else rotateZ k c)"

definition equivalentZ :: "icell list \<Rightarrow> icell list \<Rightarrow> bool" where
  "equivalentZ cs ds \<longleftrightarrow>
     (\<exists>k \<in> {0..5}. \<exists>r.
        fingerprintZ (alignedZ cs) = fingerprintZ (alignedZ (map (symmetryZ k r) ds)))"

section \<open>Cell-level laws\<close>

lemma triangle_isEqual_iff: "triangle_isEqual t u \<longleftrightarrow> t = u"
  by (cases t, cases u) (simp add: triangle_isEqual_def)

lemma getNeighbour_involution_any:
  "axis = 1 \<or> axis = 2 \<or> axis = 3 \<Longrightarrow> getNeighbour (getNeighbour t axis) axis = t"
  by (cases t) (auto simp: getNeighbour_def getNeighbourCoords_def newTriangle_def Let_def)

lemma coordSum_getNeighbour:
  "axis = 1 \<or> axis = 2 \<or> axis = 3 \<Longrightarrow> coordSum (getNeighbour t axis) = - coordSum t"
  by (auto simp: triangle_defs Let_def)

lemma coordSum_getRotated:
  "coordSum (triangle_getRotated t angle) = coordSum t \<or>
   coordSum (triangle_getRotated t angle) = - coordSum t"
  by (auto simp: triangle_defs)

lemma coordSum_getReflected:
  "coordSum (triangle_getReflected t axis) = coordSum t \<or>
   coordSum (triangle_getReflected t axis) = - coordSum t"
  by (auto simp: triangle_defs)

lemma coordSum_getShifted: "coordSum (triangle_getShifted t shift axis) = coordSum t"
  by (auto simp: triangle_defs)

lemma triangle_getCopy_id: "triangle_getCopy t = t"
  by (cases t) (simp add: triangle_getCopy_def newTriangle_def)

lemma triangle_getRotated_compose:
  assumes "0 \<le> i" "i \<le> 5" "0 \<le> j" "j \<le> 5"
  shows "triangle_getRotated (triangle_getRotated c i) j = triangle_getRotated c ((i + j) mod 6)"
proof -
  from assms have i: "i = 0 \<or> i = 1 \<or> i = 2 \<or> i = 3 \<or> i = 4 \<or> i = 5" by arith
  from assms have j: "j = 0 \<or> j = 1 \<or> j = 2 \<or> j = 3 \<or> j = 4 \<or> j = 5" by arith
  from i j show ?thesis
    by (cases c)
       (elim disjE; simp add: triangle_getRotated_def getRotatedCoords_def newTriangle_def)
qed

text \<open>
  C6. Rotation closure: for every cell and all steps \<open>i\<close>, \<open>j\<close> between 0 and 5,
  rotating by \<open>i\<close> and then by \<open>j\<close> is the single rotation by \<open>(i + j) mod 6\<close>;
  in particular two rotations by step 1 are the rotation by step 2.
\<close>

theorem rotation_closure:
  "(0 \<le> i \<and> i \<le> 5 \<and> 0 \<le> j \<and> j \<le> 5 \<longrightarrow>
      triangle_getRotated (triangle_getRotated c i) j = triangle_getRotated c ((i + j) mod 6))
   \<and> triangle_getRotated (triangle_getRotated c 1) 1 = triangle_getRotated c 2"
proof -
  have "triangle_getRotated (triangle_getRotated c 1) 1 = triangle_getRotated c ((1 + 1) mod 6)"
    by (rule triangle_getRotated_compose) simp_all
  then show ?thesis by (simp add: triangle_getRotated_compose)
qed

theorem rotation_closure_witness:
  "triangle_getRotated (triangle_getRotated (newTriangle 0 1 0) 4) 5
     = triangle_getRotated (newTriangle 0 1 0) 3
   \<and> triangle_getRotated (triangle_getRotated (newTriangle 0 1 0) 4) 5 = newTriangle 0 (- 1) 0"
  using rotation_closure [of 4 5 "newTriangle 0 1 0"]
  by (simp add: triangle_getRotated_def getRotatedCoords_def newTriangle_def)

text \<open>
  C7. Adjacency is an involution: for every cell whose coordinate sum is +1 or -1 and
  every axis in 1..3, the neighbour of the neighbour along the same axis is the cell
  itself.
\<close>

theorem neighbour_involution:
  "coordSum c = 1 \<or> coordSum c = - 1 \<Longrightarrow> axis \<in> {1, 2, 3} \<Longrightarrow>
     getNeighbour (getNeighbour c axis) axis = c"
  by (rule getNeighbour_involution_any) auto

theorem neighbour_involution_witness:
  "coordSum (newTriangle 0 1 0) = 1
   \<and> getNeighbour (newTriangle 0 1 0) 2 = newTriangle (- 1) 1 (- 1)
   \<and> getNeighbour (getNeighbour (newTriangle 0 1 0) 2) 2 = newTriangle 0 1 0"
proof -
  have s: "coordSum (newTriangle 0 1 0) = 1 \<or> coordSum (newTriangle 0 1 0) = - 1"
    by (simp add: coordSum_def newTriangle_def)
  have a: "(2::int) \<in> {1, 2, 3}" by simp
  from neighbour_involution [OF s a] show ?thesis
    by (simp add: coordSum_def newTriangle_def getNeighbour_def getNeighbourCoords_def)
qed

section \<open>Patterns as lists of cells\<close>


lemma foldl_addTriangle:
  "foldl (\<lambda>acc t. addTriangle acc (f t)) q ts =
     (if ts = [] then q else q\<lparr>triangles := triangles q @ map f ts, validHash := False\<rparr>)"
proof (induction ts arbitrary: q)
  case Nil
  show ?case by simp
next
  case (Cons t ts)
  show ?case unfolding foldl_Cons Cons.IH by (simp add: addTriangle_def)
qed

lemma foldl_addTriangle_new:
  "foldl (\<lambda>acc t. addTriangle acc (f t)) newPattern ts = freshPattern (map f ts)"
  by (simp add: foldl_addTriangle newPattern_def freshPattern_def)

lemma pattern_getShifted_eq:
  "pattern_getShifted p k a = freshPattern (map (\<lambda>t. triangle_getShifted t k a) (triangles p))"
  by (simp add: pattern_getShifted_def foldl_addTriangle_new)

lemma pattern_getRotated_eq:
  "pattern_getRotated p k = freshPattern (map (\<lambda>t. triangle_getRotated t k) (triangles p))"
  by (simp add: pattern_getRotated_def foldl_addTriangle_new)

lemma pattern_getReflected_eq:
  "pattern_getReflected p k = freshPattern (map (\<lambda>t. triangle_getReflected t k) (triangles p))"
  by (simp add: pattern_getReflected_def foldl_addTriangle_new)

lemma triangles_freshPattern [simp]: "triangles (freshPattern ts) = ts"
  by (simp add: freshPattern_def)

lemma validateHash_freshPattern:
  "validateHash (freshPattern ts) = \<lparr>triangles = ts, patternHash = fingerprint ts, validHash = True\<rparr>"
  by (simp add: validateHash_def freshPattern_def fingerprint_def)

lemma patternHash_validateHash_fresh [simp]:
  "patternHash (validateHash (freshPattern ts)) = fingerprint ts"
  by (simp add: validateHash_freshPattern)

lemma triangles_validateHash [simp]: "triangles (validateHash p) = triangles p"
  by (simp add: validateHash_def Let_def)

lemma triangles_addTriangle [simp]: "triangles (addTriangle p t) = triangles p @ [t]"
  by (simp add: addTriangle_def)

lemma triangles_pattern_getCopy [simp]: "triangles (pattern_getCopy p) = triangles p"
  by (simp add: pattern_getCopy_def foldl_addTriangle_new triangle_getCopy_id)

lemma foldl_min:
  "sint (foldl (\<lambda>m t. let c = f t in if c <s m then c else m) (m0::goInt) ts)
     = Min (set (sint m0 # map (\<lambda>t. sint (f t)) ts))"
proof -
  have "sint (foldl (\<lambda>m t. let c = f t in if c <s m then c else m) m0 ts)
      = fold min (map (\<lambda>t. sint (f t)) ts) (sint m0)"
    by (induction ts arbitrary: m0) (simp_all add: Let_def min_def word_sless_alt)
  then show ?thesis by (simp only: Min.set_eq_fold)
qed

lemma foldl_max:
  "sint (foldl (\<lambda>m t. let c = f t in if m <s c then c else m) (m0::goInt) ts)
     = Max (set (sint m0 # map (\<lambda>t. sint (f t)) ts))"
proof -
  have "sint (foldl (\<lambda>m t. let c = f t in if m <s c then c else m) m0 ts)
      = fold max (map (\<lambda>t. sint (f t)) ts) (sint m0)"
    by (induction ts arbitrary: m0) (simp_all add: Let_def max_def word_sless_alt)
  then show ?thesis by (simp only: Max.set_eq_fold)
qed

lemma getMinCoord_eq:
  "triangles p \<noteq> [] \<Longrightarrow>
     sint (getMinCoord p axis) = Min ((\<lambda>t. sint (getCoord t axis)) ` set (triangles p))"
  by (cases "triangles p") (simp_all add: getMinCoord_def foldl_min)

lemma getMaxCoord_eq:
  "triangles p \<noteq> [] \<Longrightarrow>
     sint (getMaxCoord p axis) = Max ((\<lambda>t. sint (getCoord t axis)) ` set (triangles p))"
  by (cases "triangles p") (simp_all add: getMaxCoord_def foldl_max)

lemma getMinCoord_cong: "triangles p = triangles q \<Longrightarrow> getMinCoord p axis = getMinCoord q axis"
  by (simp add: getMinCoord_def)

lemma getMaxCoord_cong: "triangles p = triangles q \<Longrightarrow> getMaxCoord p axis = getMaxCoord q axis"
  by (simp add: getMaxCoord_def)

lemma triangle_getShifted_translate:
  "triangle_getShifted t k axis =
     (if axis = 1 then translate 0 k t
      else if axis = 2 then translate (- k) 0 t
      else if axis = 3 then translate k (- k) t
      else t)"
  by (cases t) (simp add: triangle_getShifted_def getShiftedCoords_def translate_def newTriangle_def)

lemma translate_translate: "translate a b (translate c d t) = translate (a + c) (b + d) t"
  by (simp add: translate_def newTriangle_def)

lemma translate_zero [simp]: "translate 0 0 t = t"
  by (cases t) (simp add: translate_def newTriangle_def)

lemma pattern_getShifted_translate:
  "\<exists>a b. pattern_getShifted p k axis = freshPattern (map (translate a b) (triangles p))"
proof -
  have "map (\<lambda>t. triangle_getShifted t k axis) (triangles p)
        = map (translate (if axis = 1 then 0 else if axis = 2 then - k else if axis = 3 then k else 0)
                         (if axis = 1 then k else if axis = 2 then 0 else if axis = 3 then - k else 0))
              (triangles p)"
    by (simp add: triangle_getShifted_translate)
  then show ?thesis unfolding pattern_getShifted_eq by metis
qed

lemma pattern_getShifted_fresh:
  "pattern_getShifted p k axis = pattern_getShifted (freshPattern (triangles p)) k axis"
  by (simp add: pattern_getShifted_eq)

lemma getAligned_3: "getAligned p 3 = Some (freshPattern (alignedCells (triangles p)))"
proof -
  let ?q = "freshPattern (triangles p)"
  have 1: "getMaxCoord p 1 = getMaxCoord ?q 1" by (rule getMaxCoord_cong) simp
  have 2: "pattern_getShifted p k axis = pattern_getShifted ?q k axis" for k axis
    by (rule pattern_getShifted_fresh)
  have 3: "pattern_getShifted q k axis = freshPattern (triangles (pattern_getShifted q k axis))"
    for q k axis
    by (simp add: pattern_getShifted_eq)
  show ?thesis
    unfolding getAligned_def alignedCells_def Let_def 1 2 [of "getMaxCoord ?q 1" 2]
    by (simp add: 3 [symmetric])
qed

lemma alignedCells_is_translate: "\<exists>a b. alignedCells ts = map (translate a b) ts"
proof -
  obtain a b where 1: "pattern_getShifted (freshPattern ts) (getMaxCoord (freshPattern ts) 1) 2
      = freshPattern (map (translate a b) (triangles (freshPattern ts)))" (is "?c = _")
    using pattern_getShifted_translate by blast
  obtain c d where 2: "pattern_getShifted ?c (- getMinCoord ?c 2) 1
      = freshPattern (map (translate c d) (triangles ?c))"
    using pattern_getShifted_translate by blast
  have "alignedCells ts = map (translate (c + a) (d + b)) ts"
    unfolding alignedCells_def Let_def 2 unfolding 1
    by (simp add: translate_translate o_def)
  then show ?thesis by blast
qed

lemma getCentered_translate:
  "\<exists>a b. getCentered p = freshPattern (map (translate a b) (triangles p))"
proof -
  obtain a b where 1: "pattern_getShifted p (goQuo (getMinCoord p 1 + getMaxCoord p 1) 2) 2
      = freshPattern (map (translate a b) (triangles p))" (is "?c = _")
    using pattern_getShifted_translate by blast
  obtain c d where 2: "pattern_getShifted ?c (- goQuo (getMinCoord ?c 2 + getMaxCoord ?c 2) 2) 1
      = freshPattern (map (translate c d) (triangles ?c))"
    using pattern_getShifted_translate by blast
  have "getCentered p = freshPattern (map (translate (c + a) (d + b)) (triangles p))"
    unfolding getCentered_def Let_def 2 unfolding 1
    by (simp add: translate_translate o_def)
  then show ?thesis by blast
qed

lemma fingerprint_cellValue: "fingerprint ts = fingerprintZ (map cellValue ts)"
  by (simp add: fingerprint_def fingerprintZ_def sprintfTriple_def cellValue_def o_def)

section \<open>What \<open>isEqual\<close> computes\<close>

lemma alignedHash_eq: "alignedHash p = Some (fingerprint (alignedCells (triangles p)))"
  by (simp add: alignedHash_def getAligned_3)

lemma triangle_getRotated_0 [simp]: "triangle_getRotated t 0 = t"
  by (cases t) (simp add: triangle_getRotated_def getRotatedCoords_def newTriangle_def)

lemma symmetry_0_False [simp]: "symmetry 0 False t = t"
  by (simp add: symmetry_def)

lemma symmetry_0_True: "symmetry 0 True t = triangle_getReflected t 3"
  by (simp add: symmetry_def)

lemma symmetry_rotate_step:
  assumes "0 \<le> k" "k < 5"
  shows "symmetry (k + 1) r t = symmetry k r (triangle_getRotated t 1)"
proof -
  from assms have "triangle_getRotated (triangle_getRotated t 1) k
      = triangle_getRotated t ((1 + k) mod 6)"
    by (intro triangle_getRotated_compose) simp_all
  with assms show ?thesis by (simp add: symmetry_def add.commute)
qed

lemma isEqualLoop_3:
  assumes "1 \<le> i" "i \<le> 7"
  shows "isEqualLoop 3 i pAligned q =
     Some (\<exists>k \<in> {0 .. 6 - i}. \<exists>r.
        patternHash pAligned = fingerprint (alignedCells (map (symmetry k r) (triangles q))))"
  using assms
proof (induction "nat (7 - i)" arbitrary: i q)
  case 0
  then have "i = 7" by simp
  then show ?case by (simp add: isEqualLoop.simps)
next
  case (Suc n)
  then have i: "1 \<le> i" "i \<le> 6" by simp_all
  let ?P = "\<lambda>us k r. patternHash pAligned = fingerprint (alignedCells (map (symmetry k r) us))"
  let ?q' = "if i < 6 then pattern_getRotated q 1 else q"
  from Suc i have "isEqualLoop 3 (i + 1) pAligned ?q' =
      Some (\<exists>k \<in> {0 .. 6 - (i + 1)}. \<exists>r. ?P (triangles ?q') k r)"
    by (intro Suc.hyps) simp_all
  moreover have "(\<exists>k \<in> {0 .. 6 - (i + 1)}. \<exists>r. ?P (triangles ?q') k r)
      \<longleftrightarrow> (\<exists>k \<in> {1 .. 6 - i}. \<exists>r. ?P (triangles q) k r)"
  proof (cases "i < 6")
    case True
    have "?P (triangles (pattern_getRotated q 1)) k r \<longleftrightarrow> ?P (triangles q) (k + 1) r"
      if "k \<in> {0 .. 6 - (i + 1)}" for k r
    proof -
      from that i have "0 \<le> k" "k < 5" by simp_all
      then have eq: "map (\<lambda>t. symmetry k r (triangle_getRotated t 1)) (triangles q)
          = map (symmetry (k + 1) r) (triangles q)"
        by (simp add: symmetry_rotate_step)
      show ?thesis
        by (simp only: pattern_getRotated_eq triangles_freshPattern map_map o_def eq)
    qed
    then have "(\<exists>k \<in> {0 .. 6 - (i + 1)}. \<exists>r. ?P (triangles (pattern_getRotated q 1)) k r)
        \<longleftrightarrow> (\<exists>k \<in> {0 .. 6 - (i + 1)}. \<exists>r. ?P (triangles q) (k + 1) r)"
      by blast
    also have "\<dots> \<longleftrightarrow> (\<exists>k \<in> {1 .. 6 - i}. \<exists>r. ?P (triangles q) k r)"
    proof
      assume "\<exists>k \<in> {0 .. 6 - (i + 1)}. \<exists>r. ?P (triangles q) (k + 1) r"
      then obtain k r where "k \<in> {0 .. 6 - (i + 1)}" "?P (triangles q) (k + 1) r" by blast
      then have "k + 1 \<in> {1 .. 6 - i}" "?P (triangles q) (k + 1) r" by simp_all
      then show "\<exists>k \<in> {1 .. 6 - i}. \<exists>r. ?P (triangles q) k r" by blast
    next
      assume "\<exists>k \<in> {1 .. 6 - i}. \<exists>r. ?P (triangles q) k r"
      then obtain k r where "k \<in> {1 .. 6 - i}" "?P (triangles q) k r" by blast
      then have "k - 1 \<in> {0 .. 6 - (i + 1)}" "?P (triangles q) (k - 1 + 1) r" by simp_all
      then show "\<exists>k \<in> {0 .. 6 - (i + 1)}. \<exists>r. ?P (triangles q) (k + 1) r" by blast
    qed
    finally show ?thesis using True by simp
  next
    case False
    with i have "i = 6" by simp
    then show ?thesis by simp
  qed
  moreover have "(\<exists>k \<in> {0 .. 6 - i}. \<exists>r. ?P (triangles q) k r) \<longleftrightarrow>
      ?P (triangles q) 0 False \<or> ?P (triangles q) 0 True
      \<or> (\<exists>k \<in> {1 .. 6 - i}. \<exists>r. ?P (triangles q) k r)"
  proof -
    from i have "{0 .. 6 - i} = insert 0 {1 .. 6 - i}" by auto
    moreover have "(\<exists>r. ?P (triangles q) 0 r) \<longleftrightarrow> ?P (triangles q) 0 False \<or> ?P (triangles q) 0 True"
      by (metis (full_types))
    ultimately show ?thesis by simp
  qed
  moreover have "map (\<lambda>t. triangle_getReflected t 3) (triangles q)
      = map (symmetry 0 True) (triangles q)"
    by (simp add: symmetry_0_True)
  moreover have "map (symmetry 0 False) (triangles q) = triangles q"
    by (simp add: map_idI)
  moreover from i have "isEqualLoop 3 i pAligned q =
      (if patternHash pAligned = fingerprint (alignedCells (triangles q)) then Some True
       else if patternHash pAligned
               = fingerprint (alignedCells (map (\<lambda>t. triangle_getReflected t 3) (triangles q)))
       then Some True
       else isEqualLoop 3 (i + 1) pAligned ?q')"
    by (subst isEqualLoop.simps) (simp add: getAligned_3 pattern_getReflected_eq)
  ultimately show ?case by (simp only:) auto
qed

lemma pattern_isEqual_eq:
  "pattern_isEqual p other = Some (equivalentCells (triangles p) (triangles other))"
proof -
  have "isEqualLoop 3 1 (validateHash (freshPattern (alignedCells (triangles p)))) other =
     Some (\<exists>k \<in> {0 .. 6 - 1}. \<exists>r.
        patternHash (validateHash (freshPattern (alignedCells (triangles p))))
          = fingerprint (alignedCells (map (symmetry k r) (triangles other))))"
    by (rule isEqualLoop_3) simp_all
  then show ?thesis
    by (simp add: pattern_isEqual_def Let_def getAligned_3 equivalentCells_def)
qed

section \<open>The alignment of \<open>isEqual\<close>\<close>

text \<open>
  C2 (corrected). With \<open>freeAxis = 3\<close>, the value \<open>isEqual\<close> passes, \<open>getAligned\<close> shifts
  the whole pattern along axis 2 by the pattern's maximum coordinate along axis 1, then
  shifts that result along axis 1 by the negative of the result's minimum coordinate
  along axis 2. (The two steps of the claim, along axes 3 and 2 with the maximum along
  axis 2 and the minimum along axis 3, are those of \<open>freeAxis = 1\<close>.)
\<close>

theorem getAligned_freeAxis_3:
  "getAligned p 3 =
     Some (let shifted = pattern_getShifted p (getMaxCoord p 1) 2
           in pattern_getShifted shifted (- getMinCoord shifted 2) 1)"
  by (simp add: getAligned_def Let_def)

lemma getAligned_freeAxis_1: "getAligned p 1 = Some (alignAsSpecified p)"
  by (simp add: getAligned_def alignAsSpecified_def Let_def)

text \<open>
  Counterexample to C2 as stated, on the pattern of the single seed cell \<open>(0, 1, 0)\<close>:
  \<open>getAligned\<close> with \<open>freeAxis = 3\<close> moves it to \<open>(0, 0, 1)\<close>, the two steps that the
  claim names move it to \<open>(1, 0, 0)\<close>.
\<close>

theorem getAligned_not_as_specified:
  "getAligned (addTriangle newPattern (newTriangle 0 1 0)) 3
     = Some (freshPattern [newTriangle 0 0 1])
   \<and> alignAsSpecified (addTriangle newPattern (newTriangle 0 1 0))
     = freshPattern [newTriangle 1 0 0]
   \<and> getAligned (addTriangle newPattern (newTriangle 0 1 0)) 3
     \<noteq> Some (alignAsSpecified (addTriangle newPattern (newTriangle 0 1 0)))"
proof -
  have 1: "getAligned (addTriangle newPattern (newTriangle 0 1 0)) 3
     = Some (freshPattern [newTriangle 0 0 1])"
    by code_simp
  have 2: "alignAsSpecified (addTriangle newPattern (newTriangle 0 1 0))
     = freshPattern [newTriangle 1 0 0]"
    by code_simp
  have "freshPattern [newTriangle 0 0 1] \<noteq> freshPattern [newTriangle 1 0 0]"
    by (simp add: freshPattern_def newTriangle_def)
  with 1 2 show ?thesis by simp
qed

section \<open>The enumerator, branch by branch\<close>

lemma forEach_invariant:
  assumes "\<And>a s. a \<in> set as \<Longrightarrow> R s \<Longrightarrow> \<exists>s'. body a s = Some s' \<and> R s'"
    and "R s"
  shows "\<exists>s'. forEach body as s = Some s' \<and> R s'"
  using assms
proof (induction as arbitrary: s)
  case Nil
  then show ?case by simp
next
  case (Cons a as)
  from Cons.prems(1) [of a s] Cons.prems(2)
  obtain s1 where s1: "body a s = Some s1" "R s1" by auto
  from Cons.IH [OF _ s1(2)] Cons.prems(1)
  obtain s' where "forEach body as s1 = Some s'" "R s'" by auto
  with s1 show ?case by simp
qed

lemma getCentered_fresh: "getCentered p = getCentered (freshPattern (triangles p))"
  by (simp add: getCentered_def Let_def pattern_getShifted_eq
      getMinCoord_cong [of p "freshPattern (triangles p)"]
      getMaxCoord_cong [of p "freshPattern (triangles p)"])

lemma triangles_getCentered: "triangles (getCentered p) = centeredCells (triangles p)"
  by (subst getCentered_fresh) (simp add: centeredCells_def)

lemma centeredCells_translate: "\<exists>a b. centeredCells ts = map (translate a b) ts"
proof -
  obtain a b where "getCentered (freshPattern ts)
      = freshPattern (map (translate a b) (triangles (freshPattern ts)))"
    using getCentered_translate by blast
  then show ?thesis by (auto simp: centeredCells_def)
qed

lemma containsFrom_iff: "containsFrom ts t \<longleftrightarrow> t \<in> set ts"
  by (induction ts) (auto simp: triangle_isEqual_iff)

lemma contains_iff: "contains p t \<longleftrightarrow> t \<in> set (triangles p)"
  by (simp add: contains_def containsFrom_iff)

lemma foundNewPatternFrom_eq:
  "foundNewPatternFrom ps newSketch =
     Some (\<not> (\<exists>p \<in> set ps. equivalentCells (triangles p) (triangles newSketch)))"
  by (induction ps) (auto simp: pattern_isEqual_eq split: bool.splits)

lemma storeIfNew_eq:
  "storeIfNew pc newSketch =
     Some (if \<exists>p \<in> set (patterns pc). equivalentCells (triangles p) (triangles newSketch)
           then pc
           else pc\<lparr>patterns := patterns pc @ [getCentered newSketch]\<rparr>)"
  by (simp add: storeIfNew_def foundNewPatternFrom_eq)

lemma generatePatterns_empty:
  "triangles sketch = [] \<Longrightarrow>
     generatePatterns toAdd sketch pc =
       (if toAdd > 1 then generatePatterns (toAdd - 1) (addTriangle sketch (newTriangle 0 1 0)) pc
        else Some (pc\<lparr>patterns := patterns pc @ [addTriangle sketch (newTriangle 0 1 0)]\<rparr>))"
  by (subst generatePatterns.simps) (simp add: pattern_len_def Let_def)

lemma generatePatterns_small:
  "1 \<le> length (triangles sketch) \<Longrightarrow> length (triangles sketch) \<le> 2 \<Longrightarrow>
     generatePatterns toAdd sketch pc =
       (if toAdd > 1
        then generatePatterns (toAdd - 1)
               (addTriangle (pattern_getCopy sketch)
                  (getNeighbour (triangles sketch ! 0) (int (length (triangles sketch))))) pc
        else storeIfNew pc
               (addTriangle (pattern_getCopy sketch)
                  (getNeighbour (triangles sketch ! 0) (int (length (triangles sketch))))))"
proof -
  assume "1 \<le> length (triangles sketch)" and le: "length (triangles sketch) \<le> 2"
  then have "triangles sketch \<noteq> []" by auto
  with le show ?thesis
    by (subst generatePatterns.simps) (simp add: pattern_len_def Let_def)
qed

lemma generatePatterns_large:
  "3 \<le> length (triangles sketch) \<Longrightarrow>
     generatePatterns toAdd sketch pc =
       forEach
          (\<lambda>(i, axis) pc.
             if contains sketch (getNeighbour (triangles sketch ! i) axis) then Some pc
             else if toAdd > 1
                  then generatePatterns (toAdd - 1)
                         (addTriangle (pattern_getCopy sketch)
                            (getNeighbour (triangles sketch ! i) axis)) pc
                  else storeIfNew pc
                         (addTriangle (pattern_getCopy sketch)
                            (getNeighbour (triangles sketch ! i) axis)))
          (concat (map (\<lambda>i. map (\<lambda>axis. (i, axis)) [1, 2, 3])
                       [0 ..< length (triangles sketch)]))
          pc"
  by (subst generatePatterns.simps) (auto simp: pattern_len_def Let_def cong: if_cong)

text \<open>
  The invariant rule for the enumerator: \<open>I\<close> holds of the number of triangles still to
  add and of the sketch at every call, \<open>Q\<close> of the stored patterns before and after.
\<close>

lemma generatePatterns_invariant:
  fixes I :: "int \<Rightarrow> triangle list \<Rightarrow> bool" and Q :: "triangle list list \<Rightarrow> bool"
  assumes step: "\<And>n ts us. I n ts \<Longrightarrow> extends ts us \<Longrightarrow> 1 < n \<Longrightarrow> I (n - 1) us"
    and leaf0: "\<And>n tss. I n [] \<Longrightarrow> n \<le> 1 \<Longrightarrow> Q tss \<Longrightarrow> Q (tss @ [[newTriangle 0 1 0]])"
    and leaf: "\<And>n ts us tss. I n ts \<Longrightarrow> ts \<noteq> [] \<Longrightarrow> extends ts us \<Longrightarrow> n \<le> 1 \<Longrightarrow> Q tss \<Longrightarrow>
         Q (if \<exists>vs \<in> set tss. equivalentCells vs us then tss else tss @ [centeredCells us])"
  shows "I toAdd (triangles sketch) \<Longrightarrow> Q (map triangles (patterns pc)) \<Longrightarrow>
     \<exists>pc'. generatePatterns toAdd sketch pc = Some pc' \<and> Q (map triangles (patterns pc'))"
proof (induction "nat toAdd" arbitrary: toAdd sketch pc rule: less_induct)
  case less
  note I = less.prems(1) and Q = less.prems(2)
  have store: "\<exists>pc'. storeIfNew pc1 newSketch = Some pc' \<and> Q (map triangles (patterns pc'))"
    if "triangles sketch \<noteq> []" "extends (triangles sketch) (triangles newSketch)" "toAdd \<le> 1"
       "Q (map triangles (patterns pc1))" for pc1 newSketch
  proof -
    let ?found = "\<exists>p \<in> set (patterns pc1). equivalentCells (triangles p) (triangles newSketch)"
    have "?found \<longleftrightarrow>
        (\<exists>vs \<in> set (map triangles (patterns pc1)). equivalentCells vs (triangles newSketch))"
      by simp
    with leaf [OF I that] have
      "Q (if ?found then map triangles (patterns pc1)
          else map triangles (patterns pc1) @ [centeredCells (triangles newSketch)])"
      by (simp only:)
    then show ?thesis
      by (cases ?found) (simp_all add: storeIfNew_eq triangles_getCentered)
  qed
  have rec: "\<exists>pc'. generatePatterns (toAdd - 1) newSketch pc1 = Some pc'
        \<and> Q (map triangles (patterns pc'))"
    if "extends (triangles sketch) (triangles newSketch)" "1 < toAdd"
       "Q (map triangles (patterns pc1))" for pc1 newSketch
  proof -
    from that have "nat (toAdd - 1) < nat toAdd" by simp
    from less.hyps [OF this step [OF I that(1,2)] that(3)] show ?thesis .
  qed
  consider (empty) "triangles sketch = []"
    | (small) "1 \<le> length (triangles sketch)" "length (triangles sketch) \<le> 2"
    | (large) "3 \<le> length (triangles sketch)"
    by (cases "triangles sketch = []") (auto simp: Suc_le_eq, linarith)
  then show ?case
  proof cases
    case empty
    then have e: "extends (triangles sketch) (triangles (addTriangle sketch (newTriangle 0 1 0)))"
      by (simp add: extends_def)
    show ?thesis
    proof (cases "1 < toAdd")
      case True
      from rec [OF e True Q] True empty show ?thesis by (simp add: generatePatterns_empty)
    next
      case False
      with leaf0 [of toAdd "map triangles (patterns pc)"] I Q empty show ?thesis
        by (simp add: generatePatterns_empty)
    qed
  next
    case small
    let ?new = "addTriangle (pattern_getCopy sketch)
                  (getNeighbour (triangles sketch ! 0) (int (length (triangles sketch))))"
    from small have e: "extends (triangles sketch) (triangles ?new)"
      by (simp add: extends_def)
    from small have ne: "triangles sketch \<noteq> []" by auto
    show ?thesis
    proof (cases "1 < toAdd")
      case True
      from rec [OF e True Q] True small show ?thesis by (simp add: generatePatterns_small)
    next
      case False
      then have "toAdd \<le> 1" by simp
      from store [OF ne e this Q] False small show ?thesis by (simp add: generatePatterns_small)
    qed
  next
    case large
    then have ne: "triangles sketch \<noteq> []" by auto
    let ?R = "\<lambda>pc1. Q (map triangles (patterns pc1))"
    let ?body = "\<lambda>(i, axis) pc.
             if contains sketch (getNeighbour (triangles sketch ! i) axis) then Some pc
             else if toAdd > 1
                  then generatePatterns (toAdd - 1)
                         (addTriangle (pattern_getCopy sketch)
                            (getNeighbour (triangles sketch ! i) axis)) pc
                  else storeIfNew pc
                         (addTriangle (pattern_getCopy sketch)
                            (getNeighbour (triangles sketch ! i) axis))"
    let ?cands = "concat (map (\<lambda>i. map (\<lambda>axis. (i, axis)) [1, 2, 3])
                       [0 ..< length (triangles sketch)])"
    have "\<exists>s'. ?body a pc1 = Some s' \<and> ?R s'" if a: "a \<in> set ?cands" and R: "?R pc1" for a pc1
    proof -
      obtain i axis where ia: "a = (i, axis)" by (cases a)
      with a have i: "i < length (triangles sketch)" and axis: "axis \<in> {1, 2, 3}" by auto
      let ?nb = "getNeighbour (triangles sketch ! i) axis"
      show ?thesis
      proof (cases "contains sketch ?nb")
        case True
        with R ia show ?thesis by simp
      next
        case False
        with i axis large
        have e: "extends (triangles sketch) (triangles (addTriangle (pattern_getCopy sketch) ?nb))"
          unfolding extends_def contains_iff
          by (intro disjI2) (auto intro!: bexI [of _ "triangles sketch ! i"])
        show ?thesis
        proof (cases "1 < toAdd")
          case True
          from rec [OF e True R] True False ia show ?thesis by simp
        next
          case nt: False
          then have "toAdd \<le> 1" by simp
          from store [OF ne e this R] nt False ia show ?thesis by simp
        qed
      qed
    qed
    from forEach_invariant [of ?cands ?R ?body, OF this Q] large show ?thesis
      by (simp add: generatePatterns_large)
  qed
qed

section \<open>The enumerator returns; the sign invariant\<close>

lemma generatePatterns_total: "\<exists>pc'. generatePatterns toAdd sketch pc = Some pc'"
proof -
  have "\<exists>pc'. generatePatterns toAdd sketch pc = Some pc' \<and> True"
    by (rule generatePatterns_invariant [where I = "\<lambda>_ _. True" and Q = "\<lambda>_. True"]) simp_all
  then show ?thesis by simp
qed

text \<open>
  C9. For every requested number of triangles below \<open>minNumTriangles = 4\<close> or above
  \<open>maxNumTriangles = 16\<close> the program reports the validation error and enumerates
  nothing; this is its only failure: for every number in the range the enumeration
  returns a collection, and the run yields the stored patterns.
\<close>

theorem main_validates_range:
  "minNumTriangles = 4 \<and> maxNumTriangles = 16
   \<and> (numTriangles < minNumTriangles \<or> numTriangles > maxNumTriangles
        \<longrightarrow> main numTriangles = Some InvalidValueMessage)
   \<and> (minNumTriangles \<le> numTriangles \<and> numTriangles \<le> maxNumTriangles
        \<longrightarrow> (\<exists>pc. generatePatterns numTriangles newPattern newPatternsCollection = Some pc
                 \<and> main numTriangles = Some (Images (patterns pc))))"
proof -
  obtain pc where "generatePatterns numTriangles newPattern newPatternsCollection = Some pc"
    using generatePatterns_total by blast
  then show ?thesis
    by (auto simp: main_def minNumTriangles_def maxNumTriangles_def)
qed

theorem main_validates_range_witness:
  "main 3 = Some InvalidValueMessage \<and> main 17 = Some InvalidValueMessage
   \<and> main 0 = Some InvalidValueMessage \<and> main (- 5) = Some InvalidValueMessage
   \<and> (\<exists>pc. generatePatterns 16 newPattern newPatternsCollection = Some pc
            \<and> main 16 = Some (Images (patterns pc)))"
proof -
  have out: "n < minNumTriangles \<or> n > maxNumTriangles \<Longrightarrow> main n = Some InvalidValueMessage"
    for n
    using main_validates_range [of n] by blast
  have 1: "main 3 = Some InvalidValueMessage"
    by (rule out) (simp add: minNumTriangles_def)
  have 2: "main 17 = Some InvalidValueMessage"
    by (rule out) (simp add: maxNumTriangles_def)
  have 3: "main 0 = Some InvalidValueMessage"
    by (rule out) (simp add: minNumTriangles_def)
  have 4: "main (- 5) = Some InvalidValueMessage"
    by (rule out) (simp add: minNumTriangles_def)
  have "minNumTriangles \<le> 16 \<and> 16 \<le> maxNumTriangles"
    by (simp add: minNumTriangles_def maxNumTriangles_def)
  with main_validates_range [of 16]
  have 5: "\<exists>pc. generatePatterns 16 newPattern newPatternsCollection = Some pc
            \<and> main 16 = Some (Images (patterns pc))"
    by blast
  show ?thesis by (intro conjI 1 2 3 4 5)
qed

lemma validSign_getNeighbour:
  "validSign t \<Longrightarrow> axis \<in> {1, 2, 3} \<Longrightarrow> validSign (getNeighbour t axis)"
  using coordSum_getNeighbour [of axis t] by (auto simp: validSign_def)

lemma validSign_translate: "validSign (translate a b t) = validSign t"
  by (simp add: validSign_def coordSum_def translate_def newTriangle_def algebra_simps)

lemma validSign_extends:
  assumes "\<forall>t \<in> set ts. validSign t" and "extends ts us"
  shows "\<forall>t \<in> set us. validSign t"
proof -
  have seed: "validSign (newTriangle 0 1 0)"
    by (simp add: validSign_def coordSum_def newTriangle_def)
  from assms(2) consider "ts = []" "us = [newTriangle 0 1 0]"
    | "1 \<le> length ts" "length ts \<le> 2" "us = ts @ [getNeighbour (ts ! 0) (int (length ts))]"
    | t axis where "t \<in> set ts" "axis \<in> {1, 2, 3}" "us = ts @ [getNeighbour t axis]"
    unfolding extends_def by blast
  then show ?thesis
  proof cases
    case 1
    with seed show ?thesis by simp
  next
    case 2
    then have "ts ! 0 \<in> set ts" and "int (length ts) \<in> {1, 2, 3}"
      by (auto intro: nth_mem)
    with assms(1) have "validSign (getNeighbour (ts ! 0) (int (length ts)))"
      by (intro validSign_getNeighbour) blast+
    with assms(1) 2 show ?thesis by simp
  next
    case 3
    with assms(1) have "validSign (getNeighbour t axis)"
      by (intro validSign_getNeighbour) blast+
    with assms(1) 3 show ?thesis by simp
  qed
qed

lemma validSign_centeredCells:
  "\<forall>t \<in> set ts. validSign t \<Longrightarrow> \<forall>t \<in> set (centeredCells ts). validSign t"
proof -
  assume v: "\<forall>t \<in> set ts. validSign t"
  obtain a b where "centeredCells ts = map (translate a b) ts"
    using centeredCells_translate by blast
  with v show ?thesis by (simp add: validSign_translate)
qed

lemma generatePatterns_validSign:
  assumes "\<forall>t \<in> set (triangles sketch). validSign t"
    and "\<forall>p \<in> set (patterns pc). \<forall>t \<in> set (triangles p). validSign t"
  shows "\<exists>pc'. generatePatterns toAdd sketch pc = Some pc'
     \<and> (\<forall>p \<in> set (patterns pc'). \<forall>t \<in> set (triangles p). validSign t)"
proof -
  let ?I = "\<lambda>(n::int) ts. \<forall>t \<in> set ts. validSign t"
  let ?Q = "\<lambda>tss. \<forall>ts \<in> set tss. \<forall>t \<in> set ts. validSign t"
  have "\<exists>pc'. generatePatterns toAdd sketch pc = Some pc' \<and> ?Q (map triangles (patterns pc'))"
  proof (rule generatePatterns_invariant [where I = ?I and Q = ?Q])
    show "?I (n - 1) us" if "?I n ts" "extends ts us" for n :: int and ts us
      using validSign_extends [OF that] .
    show "?Q (tss @ [[newTriangle 0 1 0]])" if "?Q tss" for tss
      using that by (simp add: validSign_def coordSum_def newTriangle_def)
    show "?Q (if \<exists>vs \<in> set tss. equivalentCells vs us then tss else tss @ [centeredCells us])"
      if "?I n ts" "extends ts us" "?Q tss" for n :: int and ts us tss
      using validSign_centeredCells [OF validSign_extends [OF that(1,2)]] that(3) by auto
    show "?I toAdd (triangles sketch)" using assms(1) .
    show "?Q (map triangles (patterns pc))" using assms(2) by simp
  qed
  then show ?thesis by simp
qed

lemma validSign_pattern_getShifted:
  "\<forall>t \<in> set (triangles p). validSign t \<Longrightarrow>
     \<forall>t \<in> set (triangles (pattern_getShifted p shift axis)). validSign t"
  by (simp add: pattern_getShifted_eq validSign_def coordSum_getShifted)

lemma validSign_getRotated: "validSign t \<Longrightarrow> validSign (triangle_getRotated t angle)"
  using coordSum_getRotated [of t angle] by (auto simp: validSign_def)

lemma validSign_getReflected: "validSign t \<Longrightarrow> validSign (triangle_getReflected t axis)"
  using coordSum_getReflected [of t axis] by (auto simp: validSign_def)

lemma validSign_pattern_ops:
  assumes v: "\<forall>t \<in> set (triangles p). validSign t"
  shows "\<forall>t \<in> set (triangles (pattern_getCopy p)). validSign t"
    and "\<forall>t \<in> set (triangles (pattern_getRotated p angle)). validSign t"
    and "\<forall>t \<in> set (triangles (pattern_getReflected p axis)). validSign t"
    and "\<forall>t \<in> set (triangles (getCentered p)). validSign t"
    and "getAligned p freeAxis = Some q \<Longrightarrow> \<forall>t \<in> set (triangles q). validSign t"
proof -
  show "\<forall>t \<in> set (triangles (pattern_getCopy p)). validSign t" using v by simp
  show "\<forall>t \<in> set (triangles (pattern_getRotated p angle)). validSign t"
    using v by (simp add: pattern_getRotated_eq validSign_getRotated)
  show "\<forall>t \<in> set (triangles (pattern_getReflected p axis)). validSign t"
    using v by (simp add: pattern_getReflected_eq validSign_getReflected)
  show "\<forall>t \<in> set (triangles (getCentered p)). validSign t"
    using v by (simp add: triangles_getCentered validSign_centeredCells)
  show "\<forall>t \<in> set (triangles q). validSign t" if "getAligned p freeAxis = Some q"
  proof -
    from that obtain k1 a1 k2 a2
      where "q = pattern_getShifted (pattern_getShifted p k1 a1) k2 a2"
      by (auto simp: getAligned_def Let_def split: if_splits)
    with validSign_pattern_getShifted [OF validSign_pattern_getShifted [OF v]]
    show ?thesis by blast
  qed
qed

text \<open>
  C8. Sign invariant: the seed cell \<open>(0, 1, 0)\<close> has coordinate sum +1; the neighbour
  (along an axis in 1..3) of a cell with sum \<open>s\<close>, +1 or -1, has sum \<open>- s\<close>; a rotated
  cell (any step), a reflected cell (axis in 1..3), a shifted cell and a copied cell
  of such a cell have sum +1 or -1 again; hence every cell of every pattern the
  enumerator builds has sum +1 or -1: of the copies, shifted, rotated, reflected,
  centered and aligned patterns, of every sketch it extends, and of every pattern it
  stores.
\<close>

theorem sign_invariant:
  "coordSum (newTriangle 0 1 0) = 1
   \<and> (validSign c \<and> axis \<in> {1, 2, 3} \<longrightarrow> coordSum (getNeighbour c axis) = - coordSum c)
   \<and> (validSign c \<longrightarrow> validSign (triangle_getRotated c angle))
   \<and> (validSign c \<and> axis \<in> {1, 2, 3} \<longrightarrow> validSign (triangle_getReflected c axis))
   \<and> (validSign c \<longrightarrow> validSign (triangle_getShifted c shift axis'))
   \<and> (validSign c \<longrightarrow> validSign (triangle_getCopy c))
   \<and> ((\<forall>t \<in> set (triangles p). validSign t) \<longrightarrow>
         (\<forall>t \<in> set (triangles (pattern_getCopy p)). validSign t)
       \<and> (\<forall>t \<in> set (triangles (pattern_getShifted p shift axis')). validSign t)
       \<and> (\<forall>t \<in> set (triangles (pattern_getRotated p angle)). validSign t)
       \<and> (\<forall>t \<in> set (triangles (pattern_getReflected p axis')). validSign t)
       \<and> (\<forall>t \<in> set (triangles (getCentered p)). validSign t)
       \<and> (\<forall>q. getAligned p freeAxis = Some q \<longrightarrow> (\<forall>t \<in> set (triangles q). validSign t)))
   \<and> ((\<forall>t \<in> set ts. validSign t) \<and> extends ts us \<longrightarrow> (\<forall>t \<in> set us. validSign t))
   \<and> (\<exists>pc. generatePatterns toAdd newPattern newPatternsCollection = Some pc
          \<and> (\<forall>p \<in> set (patterns pc). \<forall>t \<in> set (triangles p). validSign t))"
proof -
  have 1: "coordSum (newTriangle 0 1 0) = 1" by (simp add: coordSum_def newTriangle_def)
  have 2: "validSign c \<and> axis \<in> {1, 2, 3} \<longrightarrow> coordSum (getNeighbour c axis) = - coordSum c"
    using coordSum_getNeighbour [of axis c] by auto
  have 3: "validSign c \<longrightarrow> validSign (triangle_getRotated c angle)"
    using coordSum_getRotated [of c angle] by (auto simp: validSign_def)
  have 4: "validSign c \<and> axis \<in> {1, 2, 3} \<longrightarrow> validSign (triangle_getReflected c axis)"
    using coordSum_getReflected [of c axis] by (auto simp: validSign_def)
  have 5: "validSign c \<longrightarrow> validSign (triangle_getShifted c shift axis')"
    by (simp add: validSign_def coordSum_getShifted)
  have 6: "validSign c \<longrightarrow> validSign (triangle_getCopy c)"
    by (simp add: triangle_getCopy_id)
  have 7: "(\<forall>t \<in> set (triangles p). validSign t) \<longrightarrow>
         (\<forall>t \<in> set (triangles (pattern_getCopy p)). validSign t)
       \<and> (\<forall>t \<in> set (triangles (pattern_getShifted p shift axis')). validSign t)
       \<and> (\<forall>t \<in> set (triangles (pattern_getRotated p angle)). validSign t)
       \<and> (\<forall>t \<in> set (triangles (pattern_getReflected p axis')). validSign t)
       \<and> (\<forall>t \<in> set (triangles (getCentered p)). validSign t)
       \<and> (\<forall>q. getAligned p freeAxis = Some q \<longrightarrow> (\<forall>t \<in> set (triangles q). validSign t))"
    using validSign_pattern_ops [of p] validSign_pattern_getShifted [of p] by blast
  have 8: "(\<forall>t \<in> set ts. validSign t) \<and> extends ts us \<longrightarrow> (\<forall>t \<in> set us. validSign t)"
    using validSign_extends by blast
  have 9: "\<exists>pc. generatePatterns toAdd newPattern newPatternsCollection = Some pc
          \<and> (\<forall>p \<in> set (patterns pc). \<forall>t \<in> set (triangles p). validSign t)"
    by (rule generatePatterns_validSign) (simp_all add: newPattern_def newPatternsCollection_def)
  show ?thesis by (intro conjI 1 2 3 4 5 6 7 8 9)
qed

theorem sign_invariant_witness:
  "validSign (newTriangle 0 1 0)
   \<and> getNeighbour (newTriangle 0 1 0) 1 = newTriangle 0 0 (- 1)
   \<and> coordSum (getNeighbour (newTriangle 0 1 0) 1) = - 1
   \<and> validSign (triangle_getRotated (newTriangle 0 1 0) 1)
   \<and> validSign (triangle_getReflected (newTriangle 0 1 0) 1)
   \<and> validSign (triangle_getShifted (newTriangle 0 1 0) 5 2)
   \<and> validSign (triangle_getCopy (newTriangle 0 1 0))
   \<and> getAligned (freshPattern [newTriangle 0 1 0]) 3 = Some (freshPattern [newTriangle 0 0 1])
   \<and> validSign (newTriangle 0 0 1)
   \<and> extends [newTriangle 0 1 0] [newTriangle 0 1 0, newTriangle 0 0 (- 1)]
   \<and> validSign (newTriangle 0 0 (- 1))
   \<and> (\<exists>pc. generatePatterns 2 newPattern newPatternsCollection = Some pc
          \<and> (\<forall>p \<in> set (patterns pc). \<forall>t \<in> set (triangles p). validSign t))"
proof -
  have v: "validSign (newTriangle 0 1 0)"
    by (simp add: validSign_def coordSum_def newTriangle_def)
  have a: "(1::int) \<in> {1, 2, 3}" by simp
  have n: "getNeighbour (newTriangle 0 1 0) 1 = newTriangle 0 0 (- 1)"
    by (simp add: getNeighbour_def getNeighbourCoords_def newTriangle_def)
  have e: "extends [newTriangle 0 1 0] [newTriangle 0 1 0, newTriangle 0 0 (- 1)]"
    by (simp add: extends_def n)
  have s: "\<forall>t \<in> set [newTriangle 0 1 0]. validSign t" using v by simp
  have s': "\<forall>t \<in> set (triangles (freshPattern [newTriangle 0 1 0])). validSign t"
    using v by simp
  have al: "getAligned (freshPattern [newTriangle 0 1 0]) 3
      = Some (freshPattern [newTriangle 0 0 1])"
    by code_simp
  from sign_invariant [where c = "newTriangle 0 1 0" and axis = 1 and angle = 1 and shift = 5
      and axis' = 2 and ts = "[newTriangle 0 1 0]" and p = "freshPattern [newTriangle 0 1 0]"
      and freeAxis = 3
      and us = "[newTriangle 0 1 0, newTriangle 0 0 (- 1)]" and toAdd = 2] v a e s s' al
  show ?thesis by (simp add: n)
qed

section \<open>Stored patterns have the requested size and are connected\<close>

lemma getNeighbour_translate:
  "axis \<in> {1, 2, 3} \<Longrightarrow> getNeighbour (translate a b t) axis = translate a b (getNeighbour t axis)"
  by (auto simp: getNeighbour_def getNeighbourCoords_def translate_def newTriangle_def Let_def)

lemma translate_inj: "translate a b t = translate a b u \<Longrightarrow> t = u"
  by (cases t, cases u) (simp add: translate_def newTriangle_def)

lemma distinct_map_translate: "distinct (map (translate a b) ts) = distinct ts"
  by (simp add: distinct_map inj_on_def translate_inj [of a b])

lemma neighbourSteps_mono: "S \<subseteq> S' \<Longrightarrow> neighbourSteps S \<subseteq> neighbourSteps S'"
  by (auto simp: neighbourSteps_def)

lemma neighbourSteps_translate:
  "(t, u) \<in> neighbourSteps S \<Longrightarrow> (translate a b t, translate a b u) \<in> neighbourSteps (translate a b ` S)"
  unfolding neighbourSteps_def using getNeighbour_translate by auto

lemma reachable_translate:
  "(t, u) \<in> (neighbourSteps S)\<^sup>* \<Longrightarrow>
     (translate a b t, translate a b u) \<in> (neighbourSteps (translate a b ` S))\<^sup>*"
proof (induction rule: rtrancl_induct)
  case base
  show ?case by simp
next
  case (step v w)
  from neighbourSteps_translate [OF step.hyps(2)] step.IH show ?case
    by (rule rtrancl_into_rtrancl [rotated])
qed

lemma connectedCells_translate:
  "connectedCells ts \<Longrightarrow> connectedCells (map (translate a b) ts)"
  unfolding connectedCells_def using reachable_translate by auto

lemma connectedCells_extend:
  assumes c: "connectedCells ts" and t: "t \<in> set ts" and axis: "axis \<in> {1, 2, 3}"
  shows "connectedCells (ts @ [getNeighbour t axis])"
proof -
  let ?nb = "getNeighbour t axis"
  let ?S = "insert ?nb (set ts)"
  let ?R = "(neighbourSteps ?S)\<^sup>*"
  have mono: "(neighbourSteps (set ts))\<^sup>* \<subseteq> ?R"
    by (intro rtrancl_mono neighbourSteps_mono) auto
  from axis have ret: "getNeighbour ?nb axis = t"
    by (intro getNeighbour_involution_any) auto
  from t axis have fwd: "(t, ?nb) \<in> ?R"
    by (intro r_into_rtrancl) (auto simp: neighbourSteps_def)
  from t axis ret have bwd: "(?nb, t) \<in> ?R"
    by (intro r_into_rtrancl) (auto simp: neighbourSteps_def intro!: bexI [of _ axis])
  have old: "(u, v) \<in> ?R" if "u \<in> set ts" "v \<in> set ts" for u v
    using c that mono unfolding connectedCells_def by blast
  have "(u, v) \<in> ?R" if "u \<in> ?S" "v \<in> ?S" for u v
  proof (cases "u = ?nb")
    case u: True
    show ?thesis
    proof (cases "v = ?nb")
      case True
      with u show ?thesis by simp
    next
      case False
      with that have "(t, v) \<in> ?R" using old t by blast
      with bwd u show ?thesis by (auto intro: rtrancl_trans)
    qed
  next
    case u: False
    with that have ut: "(u, t) \<in> ?R" using old t by blast
    show ?thesis
    proof (cases "v = ?nb")
      case True
      with ut fwd show ?thesis by (auto intro: rtrancl_trans)
    next
      case False
      with u that show ?thesis using old by blast
    qed
  qed
  then show ?thesis by (simp add: connectedCells_def)
qed

lemma getNeighbour_neq:
  "validSign t \<Longrightarrow> axis \<in> {1, 2, 3} \<Longrightarrow> getNeighbour t axis \<noteq> t"
  using coordSum_getNeighbour [of axis t] by (auto simp: validSign_def)

lemma getNeighbour_1_neq_2: "validSign t \<Longrightarrow> getNeighbour t 2 \<noteq> getNeighbour t 1"
  by (auto simp: validSign_def coordSum_def getNeighbour_def getNeighbourCoords_def
      newTriangle_def Let_def)

lemma goodSketch_extends:
  assumes g: "goodSketch ts" and e: "extends ts us"
  shows "goodSketch us \<and> length us = length ts + 1"
proof -
  from g have d: "distinct ts" and c: "connectedCells ts" and v: "\<forall>t \<in> set ts. validSign t"
    and two: "length ts = 2 \<Longrightarrow> ts ! 1 = getNeighbour (ts ! 0) 1"
    by (simp_all add: goodSketch_def)
  from validSign_extends [OF v e] have v': "\<forall>t \<in> set us. validSign t" .
  from e consider (seed) "ts = []" "us = [newTriangle 0 1 0]"
    | (one) "length ts = 1" "us = ts @ [getNeighbour (ts ! 0) 1]"
    | (two) "length ts = 2" "us = ts @ [getNeighbour (ts ! 0) 2]"
    | (many) t axis where "3 \<le> length ts" "t \<in> set ts" "axis \<in> {1, 2, 3}"
        "getNeighbour t axis \<notin> set ts" "us = ts @ [getNeighbour t axis]"
    unfolding extends_def
    by (cases "length ts = 1"; cases "length ts = 2") (auto simp: le_Suc_eq)
  then show ?thesis
  proof cases
    case seed
    with v' show ?thesis by (simp add: goodSketch_def connectedCells_def)
  next
    case one
    then obtain t0 where ts: "ts = [t0]" by (cases ts) auto
    with v have "getNeighbour t0 1 \<noteq> t0" by (intro getNeighbour_neq) auto
    moreover from connectedCells_extend [OF c, of t0 1] ts
    have "connectedCells (ts @ [getNeighbour t0 1])" by simp
    ultimately show ?thesis using one ts v' by (simp add: goodSketch_def) 
  next
    case two
    then obtain t0 t1 where ts: "ts = [t0, t1]"
      by (cases ts; cases "tl ts") auto
    with two(1) g have t1: "t1 = getNeighbour t0 1" by (simp add: goodSketch_def)
    from ts v have "getNeighbour t0 2 \<noteq> t0" by (intro getNeighbour_neq) auto
    moreover from ts v have "getNeighbour t0 2 \<noteq> getNeighbour t0 1"
      by (intro getNeighbour_1_neq_2) auto
    moreover from connectedCells_extend [OF c, of t0 2] ts
    have "connectedCells (ts @ [getNeighbour t0 2])" by simp
    ultimately show ?thesis using two ts t1 v' d by (simp add: goodSketch_def) 
  next
    case many
    from connectedCells_extend [OF c many(2,3)] many d v' show ?thesis
      by (simp add: goodSketch_def)
  qed
qed

lemma generatePatterns_size_connected:
  assumes "1 \<le> N"
  shows "\<exists>pc. generatePatterns N newPattern newPatternsCollection = Some pc
     \<and> (\<forall>p \<in> set (patterns pc).
           pattern_len p = N \<and> distinct (triangles p) \<and> connectedCells (triangles p))"
proof -
  let ?I = "\<lambda>n ts. 1 \<le> n \<and> int (length ts) + n = N \<and> goodSketch ts"
  let ?Q = "\<lambda>tss. \<forall>ts \<in> set tss. int (length ts) = N \<and> distinct ts \<and> connectedCells ts"
  have "\<exists>pc. generatePatterns N newPattern newPatternsCollection = Some pc
      \<and> ?Q (map triangles (patterns pc))"
  proof (rule generatePatterns_invariant [where I = ?I and Q = ?Q])
    show "?I (n - 1) us" if "?I n ts" "extends ts us" "1 < n" for n ts us
      using goodSketch_extends [of ts us] that by auto
    show "?Q (tss @ [[newTriangle 0 1 0]])" if "?I n []" "n \<le> 1" "?Q tss" for n tss
      using that by (auto simp: connectedCells_def)
    show "?Q (if \<exists>vs \<in> set tss. equivalentCells vs us then tss else tss @ [centeredCells us])"
      if "?I n ts" "extends ts us" "n \<le> 1" "?Q tss" for n ts us tss
    proof -
      from goodSketch_extends [of ts us] that
      have "int (length us) = N" "distinct us" "connectedCells us"
        by (auto simp: goodSketch_def)
      moreover obtain a b where "centeredCells us = map (translate a b) us"
        using centeredCells_translate by blast
      ultimately have "int (length (centeredCells us)) = N" "distinct (centeredCells us)"
        "connectedCells (centeredCells us)"
        by (simp_all add: distinct_map_translate connectedCells_translate)
      with that(4) show ?thesis by auto
    qed
    show "?I N (triangles newPattern)"
      using assms by (simp add: newPattern_def goodSketch_def connectedCells_def)
    show "?Q (map triangles (patterns newPatternsCollection))"
      by (simp add: newPatternsCollection_def)
  qed
  then show ?thesis by (simp add: pattern_len_def)
qed

text \<open>
  C4. For every target size \<open>N\<close> in the supported range, every pattern that
  \<open>generatePatterns N\<close>, started on the empty pattern and the empty collection, stores
  has exactly \<open>N\<close> triangles (no triangle twice) and is connected: every triangle is
  reachable from every other one by steps to a neighbour inside the pattern.
\<close>

theorem stored_patterns_size_connected:
  "minNumTriangles \<le> N \<Longrightarrow> N \<le> maxNumTriangles \<Longrightarrow>
     \<exists>pc. generatePatterns N newPattern newPatternsCollection = Some pc
       \<and> (\<forall>p \<in> set (patterns pc).
             pattern_len p = N \<and> distinct (triangles p) \<and> connectedCells (triangles p))"
  by (rule generatePatterns_size_connected) (simp add: minNumTriangles_def)

section \<open>The fingerprint determines the cells\<close>

lemma formatNat_small: "n < 10 \<Longrightarrow> formatNat n = [digitChar n]"
  by (subst formatNat.simps) simp

lemma formatNat_large:
  "\<not> n < 10 \<Longrightarrow> formatNat n = formatNat (n div 10) @ [digitChar (n mod 10)]"
  by (subst formatNat.simps) simp

lemma of_char_digitChar: "d < 10 \<Longrightarrow> of_char (digitChar d) = 48 + d"
proof -
  assume "d < 10"
  then have "d = 0 \<or> d = 1 \<or> d = 2 \<or> d = 3 \<or> d = 4 \<or> d = 5 \<or> d = 6 \<or> d = 7
    \<or> d = 8 \<or> d = 9"
    by presburger
  then show ?thesis by (elim disjE) (simp_all add: digitChar_def)
qed

lemma digitChar_inj:
  assumes "d < 10" "e < 10" "digitChar d = digitChar e"
  shows "d = e"
proof -
  have "(of_char (digitChar d) :: nat) = of_char (digitChar e)"
    by (simp only: assms(3))
  then have "48 + d = 48 + e"
    by (simp only: of_char_digitChar [OF assms(1)] of_char_digitChar [OF assms(2)])
  then show ?thesis by simp
qed

lemma digitChar_not_special:
  "d < 10 \<Longrightarrow> digitChar d \<noteq> CHR ''-'' \<and> digitChar d \<noteq> CHR '','' \<and> digitChar d \<noteq> CHR '' ''"
proof -
  assume "d < 10"
  then have v: "(of_char (digitChar d) :: nat) = 48 + d" by (rule of_char_digitChar)
  have "digitChar d = c \<Longrightarrow> (of_char c :: nat) = 48 + d" for c using v by simp
  from this [of "CHR ''-''"] this [of "CHR '',''"] this [of "CHR '' ''"]
  show ?thesis by auto
qed

lemma formatNat_digits: "formatNat n \<noteq> [] \<and> (\<forall>c \<in> set (formatNat n). isDigit c)"
proof (induction n rule: formatNat.induct)
  case (1 n)
  show ?case
  proof (cases "n < 10")
    case True
    then show ?thesis by (auto simp: formatNat_small isDigit_def)
  next
    case False
    have "n mod 10 < 10" by simp
    then have "isDigit (digitChar (n mod 10))" unfolding isDigit_def by blast
    with False 1 show ?thesis by (simp add: formatNat_large)
  qed
qed

lemma formatNat_inj: "formatNat n = formatNat m \<Longrightarrow> n = m"
proof (induction n arbitrary: m rule: formatNat.induct)
  case (1 n)
  have ne: "formatNat k \<noteq> []" for k using formatNat_digits by blast
  show ?case
  proof (cases "n < 10")
    case n: True
    show ?thesis
    proof (cases "m < 10")
      case True
      with n "1.prems" show ?thesis
        by (simp add: formatNat_small digitChar_inj)
    next
      case False
      with n "1.prems" ne [of "m div 10"] show ?thesis
        by (simp add: formatNat_small formatNat_large)
    qed
  next
    case n: False
    show ?thesis
    proof (cases "m < 10")
      case True
      with n "1.prems" ne [of "n div 10"] show ?thesis
        by (simp add: formatNat_small formatNat_large)
    next
      case False
      from n False "1.prems"
      have a: "formatNat (n div 10) = formatNat (m div 10)"
        and b: "digitChar (n mod 10) = digitChar (m mod 10)"
        by (simp_all add: formatNat_large)
      from "1.IH" [OF n a] have "n div 10 = m div 10" .
      moreover have "n mod 10 = m mod 10"
      proof (rule digitChar_inj [OF _ _ b])
        show "n mod 10 < 10" by simp
        show "m mod 10 < 10" by simp
      qed
      ultimately show ?thesis by (metis mult_div_mod_eq)
    qed
  qed
qed

lemma formatInt_chars:
  "formatInt i \<noteq> [] \<and> CHR '','' \<notin> set (formatInt i) \<and> CHR '' '' \<notin> set (formatInt i)"
proof -
  have d: "isDigit c \<Longrightarrow> c \<noteq> CHR '','' \<and> c \<noteq> CHR '' ''" for c
    using digitChar_not_special by (auto simp: isDigit_def)
  have "CHR '','' \<notin> set (formatNat n) \<and> CHR '' '' \<notin> set (formatNat n)" for n
    using formatNat_digits [of n] d by blast
  then show ?thesis by (simp add: formatInt_def formatNat_digits)
qed

lemma formatInt_inj: "formatInt i = formatInt j \<Longrightarrow> i = j"
proof -
  assume eq: "formatInt i = formatInt j"
  have nd0: "formatNat n \<noteq> CHR ''-'' # s" for n s
  proof
    assume "formatNat n = CHR ''-'' # s"
    then have "CHR ''-'' \<in> set (formatNat n)" by simp
    with formatNat_digits [of n] have "isDigit CHR ''-''" by blast
    then obtain d where "d < 10" and "CHR ''-'' = digitChar d" unfolding isDigit_def by blast
    with digitChar_not_special [of d] show False by simp
  qed
  then have nd: "formatNat n \<noteq> CHR ''-'' # s \<and> CHR ''-'' # s \<noteq> formatNat n" for n s
    by metis
  show ?thesis
  proof (cases "i < 0")
    case i: True
    show ?thesis
    proof (cases "j < 0")
      case True
      with i eq have "formatNat (nat (- i)) = formatNat (nat (- j))"
        by (simp add: formatInt_def)
      then have "nat (- i) = nat (- j)" by (rule formatNat_inj)
      with i True show ?thesis by simp
    next
      case False
      with i eq nd [of "nat j" "formatNat (nat (- i))"] show ?thesis by (simp add: formatInt_def)
    qed
  next
    case i: False
    show ?thesis
    proof (cases "j < 0")
      case True
      with i eq nd [of "nat i" "formatNat (nat (- j))"] show ?thesis by (simp add: formatInt_def)
    next
      case False
      with i eq have "formatNat (nat i) = formatNat (nat j)"
        by (simp add: formatInt_def)
      then have "nat i = nat j" by (rule formatNat_inj)
      with i False show ?thesis by simp
    qed
  qed
qed

lemma split_at_unique:
  "c \<notin> set u \<Longrightarrow> c \<notin> set u' \<Longrightarrow> u @ c # v = u' @ c # v' \<Longrightarrow> u = u' \<and> v = v'"
proof (induction u arbitrary: u')
  case Nil
  then show ?case by (cases u') auto
next
  case (Cons a u)
  then show ?case by (cases u') auto
qed

lemma formatCell_inj: "formatCell c = formatCell d \<Longrightarrow> c = d"
proof -
  obtain a b e where c: "c = (a, b, e)" by (cases c)
  obtain a' b' e' where d: "d = (a', b', e')" by (cases d)
  assume "formatCell c = formatCell d"
  with c d have
    "formatInt a @ CHR '','' # (formatInt b @ CHR '','' # formatInt e)
     = formatInt a' @ CHR '','' # (formatInt b' @ CHR '','' # formatInt e')"
    by simp
  from split_at_unique [OF _ _ this] formatInt_chars
  have 1: "formatInt a = formatInt a'"
    and 2: "formatInt b @ CHR '','' # formatInt e = formatInt b' @ CHR '','' # formatInt e'"
    by blast+
  from split_at_unique [OF _ _ 2] formatInt_chars
  have "formatInt b = formatInt b'" and "formatInt e = formatInt e'" by blast+
  with 1 c d show ?thesis by (simp add: formatInt_inj)
qed

lemma formatCell_chars: "formatCell c \<noteq> [] \<and> CHR '' '' \<notin> set (formatCell c)"
  using formatInt_chars by (cases c) simp

lemma stringsJoin_Cons:
  "stringsJoin (a # rest) sep = (if rest = [] then a else a @ sep @ stringsJoin rest sep)"
  by (cases rest) simp_all

lemma stringsJoin_inj:
  "\<forall>s \<in> set us. s \<noteq> [] \<and> c \<notin> set s \<Longrightarrow> \<forall>s \<in> set vs. s \<noteq> [] \<and> c \<notin> set s \<Longrightarrow>
     stringsJoin us [c] = stringsJoin vs [c] \<Longrightarrow> us = vs"
proof (induction us arbitrary: vs)
  case Nil
  then show ?case by (cases vs) (auto simp: stringsJoin_Cons split: if_splits)
next
  case (Cons a us)
  note prems = Cons.prems
  show ?case
  proof (cases vs)
    case Nil
    with prems show ?thesis by (auto simp: stringsJoin_Cons split: if_splits)
  next
    case (Cons b vs')
    from prems Cons have ca: "c \<notin> set a" and cb: "c \<notin> set b" by auto
    show ?thesis
    proof (cases "us = []")
      case u: True
      show ?thesis
      proof (cases "vs' = []")
        case True
        with u prems Cons show ?thesis by (simp add: stringsJoin_Cons)
      next
        case False
        with u prems Cons have "a = b @ c # stringsJoin vs' [c]" by (simp add: stringsJoin_Cons)
        with ca show ?thesis by auto
      qed
    next
      case u: False
      show ?thesis
      proof (cases "vs' = []")
        case True
        with u prems Cons have "b = a @ c # stringsJoin us [c]" by (simp add: stringsJoin_Cons)
        with cb show ?thesis by auto
      next
        case False
        with u prems Cons have "a @ c # stringsJoin us [c] = b @ c # stringsJoin vs' [c]"
          by (simp add: stringsJoin_Cons)
        from split_at_unique [OF ca cb this]
        have ab: "a = b" and j: "stringsJoin us [c] = stringsJoin vs' [c]" by simp_all
        from prems Cons have "\<forall>s \<in> set us. s \<noteq> [] \<and> c \<notin> set s"
          and "\<forall>s \<in> set vs'. s \<noteq> [] \<and> c \<notin> set s" by auto
        from Cons.IH [OF this j] ab Cons show ?thesis by simp
      qed
    qed
  qed
qed

lemma fingerprintZ_eq_iff: "fingerprintZ cs = fingerprintZ ds \<longleftrightarrow> mset cs = mset ds"
proof
  assume eq: "fingerprintZ cs = fingerprintZ ds"
  have ok: "\<forall>s \<in> set (sortStrings (map formatCell vs)). s \<noteq> [] \<and> CHR '' '' \<notin> set s" for vs
    using formatCell_chars by (auto simp: sortStrings_def)
  from eq have "stringsJoin (sortStrings (map formatCell cs)) [CHR '' '']
              = stringsJoin (sortStrings (map formatCell ds)) [CHR '' '']"
    by (simp add: fingerprintZ_def)
  from stringsJoin_inj [OF ok ok this]
  have "mset (sort (map formatCell cs)) = mset (sort (map formatCell ds))"
    by (simp add: sortStrings_def)
  then have m: "image_mset formatCell (mset cs) = image_mset formatCell (mset ds)" by simp
  have "inj formatCell" by (auto intro: injI formatCell_inj)
  from m this show "mset cs = mset ds"
    by (rule multiset.inj_map [THEN injD, rotated])
next
  assume "mset cs = mset ds"
  then have "mset (map formatCell cs) = mset (map formatCell ds)" by simp
  then have "sort (map formatCell cs) = sort (map formatCell ds)"
    by (intro properties_for_sort) simp_all
  then show "fingerprintZ cs = fingerprintZ ds" by (simp add: fingerprintZ_def sortStrings_def)
qed

section \<open>Equivalence without wrap-around is symmetric and blind to translation\<close>

lemma translateZ_translateZ: "translateZ a b (translateZ c d e) = translateZ (a + c) (b + d) e"
  by (cases e) simp

lemma Max_image_add:
  fixes f :: "'a \<Rightarrow> int"
  assumes "finite A" "A \<noteq> {}"
  shows "Max ((\<lambda>t. f t + c) ` A) = Max (f ` A) + c"
proof -
  have "mono (\<lambda>v::int. v + c)" by (simp add: mono_def)
  from mono_Max_commute [OF this, of "f ` A"] assms
  show ?thesis by (simp add: image_image)
qed

lemma Min_image_add:
  fixes f :: "'a \<Rightarrow> int"
  assumes "finite A" "A \<noteq> {}"
  shows "Min ((\<lambda>t. f t + c) ` A) = Min (f ` A) + c"
proof -
  have "mono (\<lambda>v::int. v + c)" by (simp add: mono_def)
  from mono_Min_commute [OF this, of "f ` A"] assms
  show ?thesis by (simp add: image_image)
qed

lemma alignedZ_translate: "alignedZ (map (translateZ a b) cs) = alignedZ cs"
proof (cases "cs = []")
  case True
  then show ?thesis by (simp add: alignedZ_def)
next
  case False
  have 1: "(\<lambda>(p, q, r). p) (translateZ a b c) = (\<lambda>(p, q, r). p) c + a" for c
    by (cases c) simp
  have 2: "(\<lambda>(p, q, r). q) (translateZ a b c) = (\<lambda>(p, q, r). q) c + b" for c
    by (cases c) simp
  from False have "Max ((\<lambda>(p, q, r). p) ` set (map (translateZ a b) cs))
      = Max ((\<lambda>(p, q, r). p) ` set cs) + a"
    by (simp only: set_map image_image 1) (simp add: Max_image_add)
  moreover from False have "Min ((\<lambda>(p, q, r). q) ` set (map (translateZ a b) cs))
      = Min ((\<lambda>(p, q, r). q) ` set cs) + b"
    by (simp only: set_map image_image 2) (simp add: Min_image_add)
  ultimately show ?thesis
    unfolding alignedZ_def by (simp add: translateZ_translateZ o_def)
qed

lemma alignedZ_is_translate: "\<exists>a b. alignedZ cs = map (translateZ a b) cs"
  unfolding alignedZ_def by blast

lemma alignedZ_mset:
  assumes "mset cs = mset ds"
  shows "mset (alignedZ cs) = mset (alignedZ ds)"
proof -
  from assms have s: "set cs = set ds" by (rule mset_eq_setD)
  have "mset (alignedZ cs)
      = image_mset (translateZ (- Max ((\<lambda>(p, q, r). p) ` set ds))
                               (- Min ((\<lambda>(p, q, r). q) ` set ds))) (mset cs)"
    by (simp add: alignedZ_def s)
  also have "\<dots> = mset (alignedZ ds)" by (simp add: alignedZ_def assms)
  finally show ?thesis .
qed

lemma rotateZ_translateZ:
  assumes "0 \<le> k" "k \<le> 5"
  shows "\<exists>a' b'. \<forall>c. rotateZ k (translateZ a b c) = translateZ a' b' (rotateZ k c)"
proof -
  from assms consider "k = 0" | "k = 1" | "k = 2" | "k = 3" | "k = 4" | "k = 5" by arith
  then show ?thesis
  proof cases
    case 1
    then show ?thesis by (intro exI [of _ a] exI [of _ b]) simp
  next
    case 2
    then show ?thesis by (intro exI [of _ "- b"] exI [of _ "a + b"]) simp
  next
    case 3
    then show ?thesis by (intro exI [of _ "- a - b"] exI [of _ a]) simp
  next
    case 4
    then show ?thesis by (intro exI [of _ "- a"] exI [of _ "- b"]) simp
  next
    case 5
    then show ?thesis by (intro exI [of _ b] exI [of _ "- a - b"]) simp
  next
    case 6
    then show ?thesis by (intro exI [of _ "a + b"] exI [of _ "- a"]) simp
  qed
qed

lemma reflectZ_translateZ: "reflectZ (translateZ a b c) = translateZ (- b) (- a) (reflectZ c)"
  by (cases c) simp

lemma symmetryZ_translateZ:
  assumes "0 \<le> k" "k \<le> 5"
  shows "\<exists>a' b'. \<forall>c. symmetryZ k r (translateZ a b c) = translateZ a' b' (symmetryZ k r c)"
proof -
  from rotateZ_translateZ [OF assms, of a b] obtain a' b' where
    rot: "\<And>c. rotateZ k (translateZ a b c) = translateZ a' b' (rotateZ k c)"
    by blast
  show ?thesis
  proof (cases r)
    case True
    then have "\<forall>c. symmetryZ k r (translateZ a b c) = translateZ (- b') (- a') (symmetryZ k r c)"
      by (simp add: symmetryZ_def rot reflectZ_translateZ)
    then show ?thesis by blast
  next
    case False
    then have "\<forall>c. symmetryZ k r (translateZ a b c) = translateZ a' b' (symmetryZ k r c)"
      by (simp add: symmetryZ_def rot)
    then show ?thesis by blast
  qed
qed

lemma alignedZ_symmetryZ_translateZ:
  assumes "0 \<le> k" "k \<le> 5"
  shows "alignedZ (map (symmetryZ k r) (map (translateZ a b) ds))
       = alignedZ (map (symmetryZ k r) ds)"
proof -
  from symmetryZ_translateZ [OF assms, of r a b] obtain a' b' where
    "\<And>c. symmetryZ k r (translateZ a b c) = translateZ a' b' (symmetryZ k r c)" by blast
  then have "map (symmetryZ k r) (map (translateZ a b) ds)
      = map (translateZ a' b') (map (symmetryZ k r) ds)" by simp
  then show ?thesis by (simp only: alignedZ_translate)
qed

lemma equivalentZ_translate_right:
  "equivalentZ cs (map (translateZ a b) ds) = equivalentZ cs ds"
proof -
  have "alignedZ (map (symmetryZ k r) (map (translateZ a b) ds))
      = alignedZ (map (symmetryZ k r) ds)" if "k \<in> {0..5}" for k r
    using that by (intro alignedZ_symmetryZ_translateZ) simp_all
  then have "(fingerprintZ (alignedZ cs)
        = fingerprintZ (alignedZ (map (symmetryZ k r) (map (translateZ a b) ds))))
      \<longleftrightarrow> (fingerprintZ (alignedZ cs)
        = fingerprintZ (alignedZ (map (symmetryZ k r) ds)))" if "k \<in> {0..5}" for k r
    using that by (simp only:)
  then show ?thesis unfolding equivalentZ_def by blast
qed

lemma equivalentZ_translate_left:
  "equivalentZ (map (translateZ a b) cs) ds = equivalentZ cs ds"
  unfolding equivalentZ_def by (simp only: alignedZ_translate)

lemma rotateZ_compose:
  assumes "0 \<le> i" "i \<le> 5" "0 \<le> j" "j \<le> 5"
  shows "rotateZ j (rotateZ i c) = rotateZ ((i + j) mod 6) c"
proof -
  from assms have i: "i = 0 \<or> i = 1 \<or> i = 2 \<or> i = 3 \<or> i = 4 \<or> i = 5" by arith
  from assms have j: "j = 0 \<or> j = 1 \<or> j = 2 \<or> j = 3 \<or> j = 4 \<or> j = 5" by arith
  from i j show ?thesis by (cases c) (elim disjE; simp)
qed

lemma symmetryZ_inverse:
  assumes "0 \<le> k" "k \<le> 5"
  shows "\<exists>k' \<in> {0..5}. \<exists>r'. \<forall>c. symmetryZ k' r' (symmetryZ k r c) = c"
proof (cases r)
  case True
  from assms have "k = 0 \<or> k = 1 \<or> k = 2 \<or> k = 3 \<or> k = 4 \<or> k = 5" by arith
  then have "symmetryZ k True (symmetryZ k True c) = c" for c
    by (cases c) (elim disjE; simp add: symmetryZ_def)
  with True assms show ?thesis
    by (intro bexI [of _ k] exI [of _ True]) simp_all
next
  case False
  let ?k' = "(6 - k) mod 6"
  have k': "0 \<le> ?k'" "?k' \<le> 5" by simp_all
  from assms consider "k = 0" | "k = 1" | "k = 2" | "k = 3" | "k = 4" | "k = 5" by arith
  then have m0: "(k + ?k') mod 6 = 0" by cases simp_all
  have z: "rotateZ 0 c = c" for c by (cases c) simp
  have "rotateZ ?k' (rotateZ k c) = c" for c
    by (simp only: rotateZ_compose [OF assms k'] m0 z)
  with False k' show ?thesis
    by (intro bexI [of _ ?k'] exI [of _ False]) (simp_all add: symmetryZ_def)
qed

lemma equivalentZ_sym:
  assumes "equivalentZ cs ds"
  shows "equivalentZ ds cs"
proof -
  from assms obtain k r where kr: "k \<in> {0..5}"
    "fingerprintZ (alignedZ cs) = fingerprintZ (alignedZ (map (symmetryZ k r) ds))"
    unfolding equivalentZ_def by blast
  from kr(1) have k: "0 \<le> k" "k \<le> 5" by simp_all
  from kr(2) have m: "mset (alignedZ cs) = mset (alignedZ (map (symmetryZ k r) ds))"
    by (simp only: fingerprintZ_eq_iff)
  obtain a1 b1 where al1: "alignedZ cs = map (translateZ a1 b1) cs"
    using alignedZ_is_translate by blast
  obtain a2 b2 where al2: "alignedZ (map (symmetryZ k r) ds)
      = map (translateZ a2 b2) (map (symmetryZ k r) ds)"
    using alignedZ_is_translate by blast
  from symmetryZ_inverse [OF k, of r] obtain k' r' where kk: "k' \<in> {0..5}"
    and inv: "\<And>c. symmetryZ k' r' (symmetryZ k r c) = c" by blast
  from kk have k': "0 \<le> k'" "k' \<le> 5" by simp_all
  from symmetryZ_translateZ [OF k', of r' a1 b1] obtain c1 d1 where
    t1: "\<And>c. symmetryZ k' r' (translateZ a1 b1 c) = translateZ c1 d1 (symmetryZ k' r' c)"
    by blast
  from symmetryZ_translateZ [OF k', of r' a2 b2] obtain c2 d2 where
    t2: "\<And>c. symmetryZ k' r' (translateZ a2 b2 c) = translateZ c2 d2 (symmetryZ k' r' c)"
    by blast
  have e1: "map (symmetryZ k' r') (alignedZ cs)
      = map (translateZ c1 d1) (map (symmetryZ k' r') cs)"
    by (simp only: al1 map_map o_def t1)
  have e2: "map (symmetryZ k' r') (alignedZ (map (symmetryZ k r) ds))
      = map (translateZ c2 d2) ds"
    by (simp only: al2 map_map o_def t2 inv)
  from m have "image_mset (symmetryZ k' r') (mset (alignedZ cs))
      = image_mset (symmetryZ k' r') (mset (alignedZ (map (symmetryZ k r) ds)))"
    by (rule arg_cong)
  then have "mset (map (symmetryZ k' r') (alignedZ cs))
      = mset (map (symmetryZ k' r') (alignedZ (map (symmetryZ k r) ds)))"
    by (simp only: mset_map)
  then have "mset (map (translateZ c1 d1) (map (symmetryZ k' r') cs))
      = mset (map (translateZ c2 d2) ds)"
    by (simp only: e1 e2)
  from alignedZ_mset [OF this]
  have "mset (alignedZ (map (symmetryZ k' r') cs)) = mset (alignedZ ds)"
    by (simp only: alignedZ_translate)
  then have "fingerprintZ (alignedZ ds) = fingerprintZ (alignedZ (map (symmetryZ k' r') cs))"
    by (simp only: fingerprintZ_eq_iff)
  with kk show ?thesis unfolding equivalentZ_def by blast
qed

section \<open>Where the program does not wrap around\<close>

text \<open>
  On cells whose coordinates are far from the limits of a word, the operations of the
  program are those on triples of integers.
\<close>

lemma sint_add_small:
  fixes a b :: goInt
  assumes "\<bar>sint a\<bar> \<le> p" "\<bar>sint b\<bar> \<le> q" "p + q < 2 ^ 63"
  shows "sint (a + b) = sint a + sint b"
proof -
  from assms have "- (2 ^ 63) \<le> sint a + sint b" "sint a + sint b < 2 ^ 63" by linarith+
  then have "signed_take_bit 63 (sint a + sint b) = sint a + sint b"
    by (rule signed_take_bit_int_eq_self)
  then show ?thesis by (simp add: sint_word_ariths)
qed

lemma sint_sub_small:
  fixes a b :: goInt
  assumes "\<bar>sint a\<bar> \<le> p" "\<bar>sint b\<bar> \<le> q" "p + q < 2 ^ 63"
  shows "sint (a - b) = sint a - sint b"
proof -
  from assms have "- (2 ^ 63) \<le> sint a - sint b" "sint a - sint b < 2 ^ 63" by linarith+
  then have "signed_take_bit 63 (sint a - sint b) = sint a - sint b"
    by (rule signed_take_bit_int_eq_self)
  then show ?thesis by (simp add: sint_word_ariths)
qed

lemma sint_neg_small:
  fixes a :: goInt
  assumes "\<bar>sint a\<bar> \<le> p" "p < 2 ^ 63"
  shows "sint (- a) = - sint a"
proof -
  from assms have "- (2 ^ 63) \<le> - sint a" "- sint a < 2 ^ 63" by linarith+
  then have "signed_take_bit 63 (- sint a) = - sint a"
    by (rule signed_take_bit_int_eq_self)
  then show ?thesis by (simp add: sint_word_ariths)
qed

lemma sint_of_int_small:
  assumes "\<bar>v\<bar> \<le> p" "p < 2 ^ 63"
  shows "sint (word_of_int v :: goInt) = v"
proof -
  from assms have "- (2 ^ 63) \<le> v" "v < 2 ^ 63" by linarith+
  then have "signed_take_bit 63 v = v" by (rule signed_take_bit_int_eq_self)
  then show ?thesis by (simp add: sint_sbintrunc')
qed

lemma coordBound_mono: "coordBound b t \<Longrightarrow> b \<le> c \<Longrightarrow> coordBound c t"
  by (auto simp: coordBound_def)

lemma coordBound_nonneg: "coordBound b t \<Longrightarrow> 0 \<le> b"
  by (auto simp: coordBound_def)

lemma coordBound_getCoord: "coordBound b t \<Longrightarrow> 0 \<le> b \<Longrightarrow> \<bar>sint (getCoord t axis)\<bar> \<le> b"
  by (auto simp: coordBound_def getCoord_def)

lemma cellValue_getShifted:
  assumes b: "coordBound b t" and k: "\<bar>sint k\<bar> \<le> c" and small: "b + c < 2 ^ 63"
  shows "cellValue (triangle_getShifted t k axis) =
           (if axis = 1 then translateZ 0 (sint k) (cellValue t)
            else if axis = 2 then translateZ (- sint k) 0 (cellValue t)
            else if axis = 3 then translateZ (sint k) (- sint k) (cellValue t)
            else cellValue t)"
    and "coordBound (b + c) (triangle_getShifted t k axis)"
proof -
  from b have bx: "\<bar>sint (x t)\<bar> \<le> b" and "\<bar>sint (y t)\<bar> \<le> b" and "\<bar>sint (z t)\<bar> \<le> b"
    by (simp_all add: coordBound_def)
  note add = sint_add_small [OF _ k small] and sub = sint_sub_small [OF _ k small]
  from bx have xp: "sint (x t + k) = sint (x t) + sint k" by (rule add)
  from bx have xm: "sint (x t - k) = sint (x t) - sint k" by (rule sub)
  from \<open>\<bar>sint (y t)\<bar> \<le> b\<close> have yp: "sint (y t + k) = sint (y t) + sint k" by (rule add)
  from \<open>\<bar>sint (y t)\<bar> \<le> b\<close> have ym: "sint (y t - k) = sint (y t) - sint k" by (rule sub)
  from \<open>\<bar>sint (z t)\<bar> \<le> b\<close> have zp: "sint (z t + k) = sint (z t) + sint k" by (rule add)
  from \<open>\<bar>sint (z t)\<bar> \<le> b\<close> have zm: "sint (z t - k) = sint (z t) - sint k" by (rule sub)
  show "cellValue (triangle_getShifted t k axis) =
           (if axis = 1 then translateZ 0 (sint k) (cellValue t)
            else if axis = 2 then translateZ (- sint k) 0 (cellValue t)
            else if axis = 3 then translateZ (sint k) (- sint k) (cellValue t)
            else cellValue t)"
    by (simp add: cellValue_def triangle_getShifted_def getShiftedCoords_def newTriangle_def
        xp xm yp ym zp zm)
  from b k show "coordBound (b + c) (triangle_getShifted t k axis)"
    by (auto simp: coordBound_def triangle_getShifted_def getShiftedCoords_def newTriangle_def
        xp xm yp ym zp zm)
qed

lemma cellValue_pattern_getShifted:
  assumes b: "\<forall>t \<in> set (triangles p). coordBound b t" and k: "\<bar>sint k\<bar> \<le> c"
    and small: "b + c < 2 ^ 63"
  shows "\<exists>a d. map cellValue (triangles (pattern_getShifted p k axis))
                 = map (translateZ a d) (map cellValue (triangles p))"
    and "\<forall>t \<in> set (triangles (pattern_getShifted p k axis)). coordBound (b + c) t"
proof -
  let ?a = "if axis = 1 then 0 else if axis = 2 then - sint k else if axis = 3 then sint k else 0"
  let ?d = "if axis = 1 then sint k else if axis = 2 then 0 else if axis = 3 then - sint k else 0"
  have "cellValue (triangle_getShifted t k axis) = translateZ ?a ?d (cellValue t)"
    if "t \<in> set (triangles p)" for t
  proof -
    from that b have "coordBound b t" by blast
    from cellValue_getShifted(1) [OF this k small, of axis] show ?thesis
      by (cases "cellValue t") auto
  qed
  then have "map cellValue (triangles (pattern_getShifted p k axis))
      = map (translateZ ?a ?d) (map cellValue (triangles p))"
    by (simp add: pattern_getShifted_eq)
  then show "\<exists>a d. map cellValue (triangles (pattern_getShifted p k axis))
                 = map (translateZ a d) (map cellValue (triangles p))"
    by blast
  from b cellValue_getShifted(2) [OF _ k small]
  show "\<forall>t \<in> set (triangles (pattern_getShifted p k axis)). coordBound (b + c) t"
    by (simp add: pattern_getShifted_eq)
qed

lemma getMaxCoord_bound:
  assumes "\<forall>t \<in> set (triangles p). coordBound b t" and "0 \<le> b"
  shows "\<bar>sint (getMaxCoord p axis)\<bar> \<le> b"
proof (cases "triangles p = []")
  case True
  with assms(2) show ?thesis by (simp add: getMaxCoord_def)
next
  case False
  then have "Max ((\<lambda>t. sint (getCoord t axis)) ` set (triangles p))
      \<in> (\<lambda>t. sint (getCoord t axis)) ` set (triangles p)"
    by (intro Max_in) simp_all
  then obtain t where "t \<in> set (triangles p)"
    and "Max ((\<lambda>t. sint (getCoord t axis)) ` set (triangles p)) = sint (getCoord t axis)"
    by blast
  with False assms show ?thesis by (simp add: getMaxCoord_eq coordBound_getCoord)
qed

lemma getMinCoord_bound:
  assumes "\<forall>t \<in> set (triangles p). coordBound b t" and "0 \<le> b"
  shows "\<bar>sint (getMinCoord p axis)\<bar> \<le> b"
proof (cases "triangles p = []")
  case True
  with assms(2) show ?thesis by (simp add: getMinCoord_def)
next
  case False
  then have "Min ((\<lambda>t. sint (getCoord t axis)) ` set (triangles p))
      \<in> (\<lambda>t. sint (getCoord t axis)) ` set (triangles p)"
    by (intro Min_in) simp_all
  then obtain t where "t \<in> set (triangles p)"
    and "Min ((\<lambda>t. sint (getCoord t axis)) ` set (triangles p)) = sint (getCoord t axis)"
    by blast
  with False assms show ?thesis by (simp add: getMinCoord_eq coordBound_getCoord)
qed

lemma alignedCells_cellValue:
  assumes b: "\<forall>t \<in> set ts. coordBound b t" and small: "3 * b < 2 ^ 63"
  shows "map cellValue (alignedCells ts) = alignedZ (map cellValue ts)"
    and "\<forall>t \<in> set (alignedCells ts). coordBound (3 * b) t"
proof -
  let ?p = "freshPattern ts"
  let ?M = "getMaxCoord ?p 1"
  let ?c = "pattern_getShifted ?p ?M 2"
  let ?m = "getMinCoord ?c 2"
  have cells: "alignedCells ts
      = map (\<lambda>t. triangle_getShifted (triangle_getShifted t ?M 2) (- ?m) 1) ts"
    by (simp add: alignedCells_def Let_def pattern_getShifted_eq o_def)
  have "map cellValue (alignedCells ts) = alignedZ (map cellValue ts)
      \<and> (\<forall>t \<in> set (alignedCells ts). coordBound (3 * b) t)"
  proof (cases "ts = []")
    case True
    then show ?thesis
      by (simp add: alignedCells_def Let_def pattern_getShifted_eq alignedZ_def)
  next
    case False
    then obtain t0 where "t0 \<in> set ts" by (cases ts) auto
    with b have b0: "0 \<le> b" by (blast intro: coordBound_nonneg)
    from b b0 have M: "\<bar>sint ?M\<bar> \<le> b" by (intro getMaxCoord_bound) simp_all
    from False have Mv: "sint ?M = Max ((\<lambda>t::triangle. sint (x t)) ` set ts)"
      by (simp add: getMaxCoord_eq getCoord_def)
    have small2: "b + b < 2 ^ 63" using small b0 by linarith
    have step1: "cellValue (triangle_getShifted t ?M 2) = translateZ (- sint ?M) 0 (cellValue t)"
      and bound1: "coordBound (b + b) (triangle_getShifted t ?M 2)"
      if "t \<in> set ts" for t
    proof -
      from that b have "coordBound b t" by blast
      from cellValue_getShifted [OF this M small2, of 2]
      show "cellValue (triangle_getShifted t ?M 2) = translateZ (- sint ?M) 0 (cellValue t)"
        and "coordBound (b + b) (triangle_getShifted t ?M 2)"
        by simp_all
    qed
    have ne: "triangles ?c \<noteq> []" using False by (simp add: pattern_getShifted_eq)
    have ysame: "y (triangle_getShifted t ?M 2) = y t" for t
      by (simp add: triangle_getShifted_def getShiftedCoords_def newTriangle_def)
    have "sint ?m = Min ((\<lambda>t. sint (getCoord t 2)) ` set (triangles ?c))"
      using ne by (rule getMinCoord_eq)
    also have "\<dots> = Min ((\<lambda>t::triangle. sint (y t)) ` set ts)"
      by (simp add: pattern_getShifted_eq getCoord_def image_image ysame)
    finally have mv: "sint ?m = Min ((\<lambda>t::triangle. sint (y t)) ` set ts)" .
    have "Min ((\<lambda>t::triangle. sint (y t)) ` set ts) \<in> (\<lambda>t::triangle. sint (y t)) ` set ts"
      using False by (intro Min_in) simp_all
    then obtain t1 where "t1 \<in> set ts" and "sint ?m = sint (y t1)"
      unfolding mv by blast
    with b have m: "\<bar>sint ?m\<bar> \<le> b" by (auto simp: coordBound_def)
    have "b < 2 ^ 63" using small b0 by linarith
    with m have negm: "sint (- ?m) = - sint ?m" by (rule sint_neg_small)
    with m have m': "\<bar>sint (- ?m)\<bar> \<le> b" by simp
    have small3: "(b + b) + b < 2 ^ 63" using small by linarith
    have step2: "cellValue (triangle_getShifted (triangle_getShifted t ?M 2) (- ?m) 1)
          = translateZ (- sint ?M) (- sint ?m) (cellValue t)"
      and bound2: "coordBound (3 * b) (triangle_getShifted (triangle_getShifted t ?M 2) (- ?m) 1)"
      if "t \<in> set ts" for t
    proof -
      from cellValue_getShifted [OF bound1 [OF that] m' small3, of 1]
      have 1: "cellValue (triangle_getShifted (triangle_getShifted t ?M 2) (- ?m) 1)
          = translateZ 0 (sint (- ?m)) (cellValue (triangle_getShifted t ?M 2))"
        and 2: "coordBound ((b + b) + b) (triangle_getShifted (triangle_getShifted t ?M 2) (- ?m) 1)"
        by simp_all
      from 1 show "cellValue (triangle_getShifted (triangle_getShifted t ?M 2) (- ?m) 1)
          = translateZ (- sint ?M) (- sint ?m) (cellValue t)"
        by (simp add: step1 [OF that] negm translateZ_translateZ)
      from 2 show "coordBound (3 * b) (triangle_getShifted (triangle_getShifted t ?M 2) (- ?m) 1)"
        by (rule coordBound_mono) simp
    qed
    have fx: "(\<lambda>(p, q, r). p) ` set (map cellValue ts) = (\<lambda>t::triangle. sint (x t)) ` set ts"
      by (simp add: image_image cellValue_def)
    have fy: "(\<lambda>(p, q, r). q) ` set (map cellValue ts) = (\<lambda>t::triangle. sint (y t)) ` set ts"
      by (simp add: image_image cellValue_def)
    have "map cellValue (alignedCells ts) = alignedZ (map cellValue ts)"
      unfolding cells alignedZ_def fx fy Mv [symmetric] mv [symmetric]
      by (simp add: step2)
    moreover have "\<forall>t \<in> set (alignedCells ts). coordBound (3 * b) t"
      unfolding cells using bound2 by simp
    ultimately show ?thesis by blast
  qed
  then show "map cellValue (alignedCells ts) = alignedZ (map cellValue ts)"
    and "\<forall>t \<in> set (alignedCells ts). coordBound (3 * b) t"
    by blast+
qed

lemma cellValue_symmetry:
  assumes b: "coordBound b t" and small: "b < 2 ^ 63"
  shows "cellValue (symmetry k r t) = symmetryZ k r (cellValue t)"
    and "coordBound b (symmetry k r t)"
proof -
  from b have "\<bar>sint (x t)\<bar> \<le> b" "\<bar>sint (y t)\<bar> \<le> b" "\<bar>sint (z t)\<bar> \<le> b"
    by (simp_all add: coordBound_def)
  then have n: "sint (- x t) = - sint (x t)" "sint (- y t) = - sint (y t)"
      "sint (- z t) = - sint (z t)"
    using small by (blast intro: sint_neg_small)+
  show "cellValue (symmetry k r t) = symmetryZ k r (cellValue t)"
    by (simp add: cellValue_def symmetry_def symmetryZ_def triangle_getRotated_def
        getRotatedCoords_def triangle_getReflected_def getReflectedCoords_def newTriangle_def n)
  from b show "coordBound b (symmetry k r t)"
    by (simp add: coordBound_def symmetry_def triangle_getRotated_def
        getRotatedCoords_def triangle_getReflected_def getReflectedCoords_def newTriangle_def n)
qed

lemma equivalentCells_cellValue:
  assumes ts: "\<forall>t \<in> set ts. coordBound b t" and us: "\<forall>t \<in> set us. coordBound b t"
    and small: "3 * b < 2 ^ 63"
  shows "equivalentCells ts us \<longleftrightarrow> equivalentZ (map cellValue ts) (map cellValue us)"
proof -
  have left: "fingerprint (alignedCells ts) = fingerprintZ (alignedZ (map cellValue ts))"
    by (simp only: fingerprint_cellValue alignedCells_cellValue(1) [OF ts small])
  have right: "fingerprint (alignedCells (map (symmetry k r) us))
      = fingerprintZ (alignedZ (map (symmetryZ k r) (map cellValue us)))" for k r
  proof (cases "us = []")
    case True
    then show ?thesis by (simp add: fingerprint_cellValue alignedCells_def pattern_getShifted_eq alignedZ_def)
  next
    case False
    then obtain t0 where "t0 \<in> set us" by (cases us) auto
    with us have "0 \<le> b" by (blast intro: coordBound_nonneg)
    with small have sm: "b < 2 ^ 63" by linarith
    from us have bd: "\<forall>t \<in> set (map (symmetry k r) us). coordBound b t"
      by (simp add: cellValue_symmetry(2) [OF _ sm])
    have "map cellValue (map (symmetry k r) us) = map (symmetryZ k r) (map cellValue us)"
      using us by (simp add: cellValue_symmetry(1) [OF _ sm])
    then show ?thesis
      by (simp only: fingerprint_cellValue alignedCells_cellValue(1) [OF bd small])
  qed
  show ?thesis unfolding equivalentCells_def equivalentZ_def left right ..
qed

lemma truncQuo_2_bound: "\<bar>v\<bar> \<le> 2 * b \<Longrightarrow> \<bar>truncQuo v 2\<bar> \<le> b"
  by (auto simp: truncQuo_def)

lemma goQuo_2_bound:
  assumes "\<bar>sint v\<bar> \<le> 2 * b" and "b < 2 ^ 63"
  shows "\<bar>sint (goQuo v 2)\<bar> \<le> b"
proof -
  have "\<bar>truncQuo (sint v) 2\<bar> \<le> b" using assms(1) by (rule truncQuo_2_bound)
  then show ?thesis by (simp add: goQuo_def sint_of_int_small [OF _ assms(2)])
qed

lemma mean_bound:
  assumes b: "\<forall>t \<in> set (triangles p). coordBound b t" and b0: "0 \<le> b"
    and small: "2 * b < 2 ^ 63"
  shows "\<bar>sint (goQuo (getMinCoord p axis + getMaxCoord p axis) 2)\<bar> \<le> b"
proof -
  have mn: "\<bar>sint (getMinCoord p axis)\<bar> \<le> b" using b b0 by (rule getMinCoord_bound)
  have mx: "\<bar>sint (getMaxCoord p axis)\<bar> \<le> b" using b b0 by (rule getMaxCoord_bound)
  have "b + b < 2 ^ 63" using small by simp
  from sint_add_small [OF mn mx this] mn mx
  have "\<bar>sint (getMinCoord p axis + getMaxCoord p axis)\<bar> \<le> 2 * b" by simp
  moreover have "b < 2 ^ 63" using small b0 by linarith
  ultimately show ?thesis by (rule goQuo_2_bound)
qed

lemma centeredCells_cellValue:
  assumes b: "\<forall>t \<in> set ts. coordBound b t" and b0: "0 \<le> b" and small: "4 * b < 2 ^ 63"
  shows "\<exists>a d. map cellValue (centeredCells ts) = map (translateZ a d) (map cellValue ts)"
    and "\<forall>t \<in> set (centeredCells ts). coordBound (4 * b) t"
proof -
  let ?p = "freshPattern ts"
  let ?k = "goQuo (getMinCoord ?p 1 + getMaxCoord ?p 1) 2"
  let ?c = "pattern_getShifted ?p ?k 2"
  let ?l = "goQuo (getMinCoord ?c 2 + getMaxCoord ?c 2) 2"
  have cells: "centeredCells ts = triangles (pattern_getShifted ?c (- ?l) 1)"
    by (simp add: centeredCells_def getCentered_def Let_def)
  from b have bp: "\<forall>t \<in> set (triangles ?p). coordBound b t" by simp
  have k: "\<bar>sint ?k\<bar> \<le> b" using bp b0 by (rule mean_bound) (use small b0 in linarith)
  have s1: "b + b < 2 ^ 63" using small b0 by linarith
  from cellValue_pattern_getShifted [OF bp k s1, of 2]
  obtain a d where 1: "map cellValue (triangles ?c) = map (translateZ a d) (map cellValue ts)"
    and bc: "\<forall>t \<in> set (triangles ?c). coordBound (b + b) t"
    by auto
  have b20: "0 \<le> b + b" using b0 by simp
  have s20: "2 * (b + b) < 2 ^ 63" using small by simp
  have "\<bar>sint ?l\<bar> \<le> b + b" using bc b20 s20 by (rule mean_bound)
  moreover have "b + b < (2::int) ^ 63" by (rule s1)
  ultimately have l: "\<bar>sint (- ?l)\<bar> \<le> b + b" by (simp add: sint_neg_small)
  have s2: "(b + b) + (b + b) < 2 ^ 63" using small by linarith
  from cellValue_pattern_getShifted [OF bc l s2, of 1]
  obtain a' d' where 2: "map cellValue (centeredCells ts)
        = map (translateZ a' d') (map cellValue (triangles ?c))"
    and bf: "\<forall>t \<in> set (centeredCells ts). coordBound ((b + b) + (b + b)) t"
    unfolding cells by auto
  have "map cellValue (centeredCells ts) = map (translateZ (a' + a) (d' + d)) (map cellValue ts)"
    unfolding 2 1 by (simp add: translateZ_translateZ o_def)
  then show "\<exists>a d. map cellValue (centeredCells ts) = map (translateZ a d) (map cellValue ts)"
    by blast
  from bf show "\<forall>t \<in> set (centeredCells ts). coordBound (4 * b) t"
    by (auto intro: coordBound_mono)
qed

lemma equivalentCells_refl: "equivalentCells ts ts"
proof -
  have "fingerprint (alignedCells ts) = fingerprint (alignedCells (map (symmetry 0 False) ts))"
    by (simp add: map_idI)
  then show ?thesis
    unfolding equivalentCells_def by (intro bexI [of _ 0] exI [of _ False]) simp_all
qed

lemma equivalentCells_centeredCells:
  assumes vs: "\<forall>t \<in> set vs. coordBound b t" and us: "\<forall>t \<in> set us. coordBound b t"
    and b0: "0 \<le> b" and small: "12 * b < 2 ^ 63"
  shows "equivalentCells vs (centeredCells us) = equivalentCells vs us"
proof -
  have s4: "4 * b < 2 ^ 63" and s3: "3 * b < 2 ^ 63" and s12: "3 * (4 * b) < 2 ^ 63"
    using small b0 by linarith+
  from centeredCells_cellValue [OF us b0 s4]
  obtain a d where c: "map cellValue (centeredCells us) = map (translateZ a d) (map cellValue us)"
    and cb: "\<forall>t \<in> set (centeredCells us). coordBound (4 * b) t"
    by blast
  from vs b0 have vs4: "\<forall>t \<in> set vs. coordBound (4 * b) t"
    by (auto intro: coordBound_mono)
  have "equivalentCells vs (centeredCells us)
      = equivalentZ (map cellValue vs) (map (translateZ a d) (map cellValue us))"
    by (simp only: equivalentCells_cellValue [OF vs4 cb s12] c)
  also have "\<dots> = equivalentZ (map cellValue vs) (map cellValue us)"
    by (rule equivalentZ_translate_right)
  also have "\<dots> = equivalentCells vs us"
    by (simp only: equivalentCells_cellValue [OF vs us s3])
  finally show ?thesis .
qed

lemma equivalentCells_sym:
  assumes "\<forall>t \<in> set ts. coordBound b t" and "\<forall>t \<in> set us. coordBound b t"
    and "3 * b < 2 ^ 63" and "equivalentCells ts us"
  shows "equivalentCells us ts"
  using assms(4) equivalentZ_sym
  by (simp only: equivalentCells_cellValue [OF assms(1,2,3)]
      equivalentCells_cellValue [OF assms(2,1,3)])

section \<open>Alignment and translation; centering and equivalence\<close>

text \<open>
  C5. Alignment removes translation, where nothing wraps around: for every pattern \<open>s\<close>
  whose coordinates are at most \<open>2 ^ 60\<close> in absolute value, every shift amount \<open>k\<close> of
  absolute value at most \<open>2 ^ 60\<close> and every shift axis in 1..3, the fingerprint of the
  aligned shifted pattern (aligned with \<open>freeAxis = 3\<close>, as \<open>isEqual\<close> does) is the
  fingerprint of the aligned pattern.
\<close>

theorem alignment_removes_small_translation:
  "axis \<in> {1, 2, 3} \<Longrightarrow> \<forall>t \<in> set (triangles s). coordBound (2 ^ 60) t \<Longrightarrow>
     \<bar>sint k\<bar> \<le> 2 ^ 60 \<Longrightarrow>
     alignedHash (pattern_getShifted s k axis) = alignedHash s \<and> alignedHash s \<noteq> None"
proof -
  assume b: "\<forall>t \<in> set (triangles s). coordBound (2 ^ 60) t" and k: "\<bar>sint k\<bar> \<le> 2 ^ 60"
  have s1: "(2::int) ^ 60 + 2 ^ 60 < 2 ^ 63" by simp
  from cellValue_pattern_getShifted [OF b k s1, of axis]
  obtain a d where c: "map cellValue (triangles (pattern_getShifted s k axis))
        = map (translateZ a d) (map cellValue (triangles s))"
    and cb: "\<forall>t \<in> set (triangles (pattern_getShifted s k axis)). coordBound (2 ^ 60 + 2 ^ 60) t"
    by blast
  have s2: "3 * ((2::int) ^ 60 + 2 ^ 60) < 2 ^ 63" by simp
  have s3: "3 * (2::int) ^ 60 < 2 ^ 63" by simp
  have "fingerprint (alignedCells (triangles (pattern_getShifted s k axis)))
      = fingerprintZ (alignedZ (map (translateZ a d) (map cellValue (triangles s))))"
    by (simp only: fingerprint_cellValue alignedCells_cellValue(1) [OF cb s2] c)
  also have "\<dots> = fingerprintZ (alignedZ (map cellValue (triangles s)))"
    by (simp only: alignedZ_translate)
  also have "\<dots> = fingerprint (alignedCells (triangles s))"
    by (simp only: fingerprint_cellValue alignedCells_cellValue(1) [OF b s3])
  finally show ?thesis by (simp add: alignedHash_eq)
qed

theorem alignment_removes_small_translation_witness:
  "alignedHash (pattern_getShifted
       (addTriangle (addTriangle newPattern (newTriangle 0 1 0)) (newTriangle 0 0 (- 1))) 7 2)
     = alignedHash
         (addTriangle (addTriangle newPattern (newTriangle 0 1 0)) (newTriangle 0 0 (- 1)))
   \<and> alignedHash
         (addTriangle (addTriangle newPattern (newTriangle 0 1 0)) (newTriangle 0 0 (- 1)))
       = Some ''0,0,-1 0,1,0''
   \<and> triangles (pattern_getShifted
         (addTriangle (addTriangle newPattern (newTriangle 0 1 0)) (newTriangle 0 0 (- 1))) 7 2)
       = [newTriangle (- 7) 1 7, newTriangle (- 7) 0 6]"
proof -
  have a: "(2::int) \<in> {1, 2, 3}" by simp
  have b: "\<forall>t \<in> set (triangles
        (addTriangle (addTriangle newPattern (newTriangle 0 1 0)) (newTriangle 0 0 (- 1)))).
      coordBound (2 ^ 60) t"
    by (simp add: newPattern_def coordBound_def newTriangle_def)
  have k: "\<bar>sint (7::goInt)\<bar> \<le> 2 ^ 60" by simp
  have "alignedHash
         (addTriangle (addTriangle newPattern (newTriangle 0 1 0)) (newTriangle 0 0 (- 1)))
       = Some ''0,0,-1 0,1,0''"
    by code_simp
  moreover have "triangles (pattern_getShifted
         (addTriangle (addTriangle newPattern (newTriangle 0 1 0)) (newTriangle 0 0 (- 1))) 7 2)
       = [newTriangle (- 7) 1 7, newTriangle (- 7) 0 6]"
    by code_simp
  ultimately show ?thesis
    using alignment_removes_small_translation [OF a b k] by simp
qed

text \<open>
  Counterexample to C5 as stated, with the 64-bit integers of the program: the pattern of
  the cells \<open>(0, 1, 0)\<close> and \<open>(0, 0, -1)\<close>, shifted along axis 1 by the largest integer
  \<open>2 ^ 63 - 1\<close>. The shift wraps the second coordinates to \<open>- 2 ^ 63\<close> and \<open>2 ^ 63 - 1\<close>,
  which exchanges the cell with the smaller second coordinate, and the aligned
  fingerprint changes.
\<close>

theorem alignment_keeps_large_translation:
  "alignedHash (pattern_getShifted
       (addTriangle (addTriangle newPattern (newTriangle 0 1 0)) (newTriangle 0 0 (- 1)))
       9223372036854775807 1)
     = Some ''0,-1,0 0,0,1''
   \<and> alignedHash
         (addTriangle (addTriangle newPattern (newTriangle 0 1 0)) (newTriangle 0 0 (- 1)))
       = Some ''0,0,-1 0,1,0''
   \<and> alignedHash (pattern_getShifted
         (addTriangle (addTriangle newPattern (newTriangle 0 1 0)) (newTriangle 0 0 (- 1)))
         9223372036854775807 1)
       \<noteq> alignedHash
           (addTriangle (addTriangle newPattern (newTriangle 0 1 0)) (newTriangle 0 0 (- 1)))"
proof -
  have 1: "alignedHash (pattern_getShifted
       (addTriangle (addTriangle newPattern (newTriangle 0 1 0)) (newTriangle 0 0 (- 1)))
       9223372036854775807 1)
     = Some ''0,-1,0 0,0,1''"
    by code_simp
  have 2: "alignedHash
         (addTriangle (addTriangle newPattern (newTriangle 0 1 0)) (newTriangle 0 0 (- 1)))
       = Some ''0,0,-1 0,1,0''"
    by code_simp
  show ?thesis unfolding 1 2 by simp
qed

text \<open>
  C10. Centering preserves the symmetry-equivalence class, where nothing wraps around: for
  every non-empty pattern \<open>p\<close> whose coordinates are at most \<open>2 ^ 59\<close> in absolute value,
  \<open>isEqual\<close> of \<open>p\<close> and \<open>getCentered p\<close> is true.
\<close>

theorem centering_preserves_equivalence_in_range:
  "triangles p \<noteq> [] \<Longrightarrow> \<forall>t \<in> set (triangles p). coordBound (2 ^ 59) t \<Longrightarrow>
     pattern_isEqual p (getCentered p) = Some True"
proof -
  assume b: "\<forall>t \<in> set (triangles p). coordBound (2 ^ 59) t"
  have "equivalentCells (triangles p) (centeredCells (triangles p))
      = equivalentCells (triangles p) (triangles p)"
    using b b by (rule equivalentCells_centeredCells) simp_all
  then show ?thesis
    by (simp add: pattern_isEqual_eq triangles_getCentered equivalentCells_refl)
qed

theorem centering_preserves_equivalence_in_range_witness:
  "triangles (getCentered (addTriangle (addTriangle newPattern (newTriangle 3 1 (- 3)))
                                        (newTriangle 3 0 (- 4))))
     = [newTriangle 0 1 0, newTriangle 0 0 (- 1)]
   \<and> pattern_isEqual
        (addTriangle (addTriangle newPattern (newTriangle 3 1 (- 3))) (newTriangle 3 0 (- 4)))
        (getCentered (addTriangle (addTriangle newPattern (newTriangle 3 1 (- 3)))
                                  (newTriangle 3 0 (- 4))))
     = Some True"
proof -
  have ne: "triangles (addTriangle (addTriangle newPattern (newTriangle 3 1 (- 3)))
                                   (newTriangle 3 0 (- 4))) \<noteq> []"
    by (simp add: addTriangle_def)
  have b: "\<forall>t \<in> set (triangles (addTriangle (addTriangle newPattern (newTriangle 3 1 (- 3)))
                                   (newTriangle 3 0 (- 4)))).
      coordBound (2 ^ 59) t"
    by (simp add: newPattern_def coordBound_def newTriangle_def)
  have "triangles (getCentered (addTriangle (addTriangle newPattern (newTriangle 3 1 (- 3)))
                                        (newTriangle 3 0 (- 4))))
     = [newTriangle 0 1 0, newTriangle 0 0 (- 1)]"
    by code_simp
  with centering_preserves_equivalence_in_range [OF ne b] show ?thesis by simp
qed

text \<open>
  Counterexample to C10 as stated, with the 64-bit integers of the program: the three
  cells \<open>(M, 1, - M)\<close>, \<open>(M, 0, - M - 1)\<close> and \<open>(M - 1, 1, - M - 1)\<close> for the largest
  integer \<open>M = 2 ^ 63 - 1\<close>, each with a coordinate sum of +1 or -1. In \<open>getCentered\<close> the
  sum of the minimum \<open>M - 1\<close> and the maximum \<open>M\<close> along axis 1 wraps to \<open>- 3\<close>, the shift
  by \<open>- 3 / 2 = - 1\<close> wraps the first coordinate of two of the cells, and \<open>isEqual\<close> of the
  pattern and the centered pattern is false.
\<close>

theorem centering_leaves_equivalence_class:
  "triangles (getCentered
       (addTriangle (addTriangle (addTriangle newPattern
          (newTriangle 9223372036854775807 1 (- 9223372036854775807)))
          (newTriangle 9223372036854775807 0 (- 9223372036854775808)))
          (newTriangle 9223372036854775806 1 (- 9223372036854775808))))
     = [newTriangle (- 9223372036854775808) 1 (- 9223372036854775808),
        newTriangle (- 9223372036854775808) 0 9223372036854775807,
        newTriangle 9223372036854775807 1 9223372036854775807]
   \<and> pattern_isEqual
       (addTriangle (addTriangle (addTriangle newPattern
          (newTriangle 9223372036854775807 1 (- 9223372036854775807)))
          (newTriangle 9223372036854775807 0 (- 9223372036854775808)))
          (newTriangle 9223372036854775806 1 (- 9223372036854775808)))
       (getCentered
         (addTriangle (addTriangle (addTriangle newPattern
            (newTriangle 9223372036854775807 1 (- 9223372036854775807)))
            (newTriangle 9223372036854775807 0 (- 9223372036854775808)))
            (newTriangle 9223372036854775806 1 (- 9223372036854775808))))
     = Some False"
proof -
  have 1: "triangles (getCentered
       (addTriangle (addTriangle (addTriangle newPattern
          (newTriangle 9223372036854775807 1 (- 9223372036854775807)))
          (newTriangle 9223372036854775807 0 (- 9223372036854775808)))
          (newTriangle 9223372036854775806 1 (- 9223372036854775808))))
     = [newTriangle (- 9223372036854775808) 1 (- 9223372036854775808),
        newTriangle (- 9223372036854775808) 0 9223372036854775807,
        newTriangle 9223372036854775807 1 9223372036854775807]"
    by code_simp
  have 2: "pattern_isEqual
       (addTriangle (addTriangle (addTriangle newPattern
          (newTriangle 9223372036854775807 1 (- 9223372036854775807)))
          (newTriangle 9223372036854775807 0 (- 9223372036854775808)))
          (newTriangle 9223372036854775806 1 (- 9223372036854775808)))
       (getCentered
         (addTriangle (addTriangle (addTriangle newPattern
            (newTriangle 9223372036854775807 1 (- 9223372036854775807)))
            (newTriangle 9223372036854775807 0 (- 9223372036854775808)))
            (newTriangle 9223372036854775806 1 (- 9223372036854775808))))
     = Some False"
    by code_simp
  from 1 2 show ?thesis by (rule conjI)
qed

section \<open>No two stored patterns are equivalent\<close>

text \<open>
  The coordinates of a sketch of \<open>n\<close> triangles are bounded by \<open>n\<close>, and those of a stored
  pattern of \<open>N\<close> triangles by \<open>4 * N\<close>: in the supported range the enumerator stays far
  from the limits of a word.
\<close>

lemma coordBound_getNeighbour:
  assumes v: "validSign t" and b: "coordBound b t" and small: "b + 1 < 2 ^ 63"
  shows "coordBound (b + 1) (getNeighbour t axis)"
proof -
  have one: "\<bar>sint (1::goInt)\<bar> \<le> 1" by simp
  have m: "\<bar>sint (a - 1)\<bar> \<le> b + 1" and p: "\<bar>sint (a + 1)\<bar> \<le> b + 1"
    if "\<bar>sint a\<bar> \<le> b" for a :: goInt
    using sint_sub_small [OF that one small] sint_add_small [OF that one small] that
    by simp_all
  from b have c: "\<bar>sint (x t)\<bar> \<le> b" "\<bar>sint (y t)\<bar> \<le> b" "\<bar>sint (z t)\<bar> \<le> b"
    by (simp_all add: coordBound_def)
  then have c1: "\<bar>sint (x t)\<bar> \<le> b + 1" "\<bar>sint (y t)\<bar> \<le> b + 1" "\<bar>sint (z t)\<bar> \<le> b + 1"
    and b1: "0 \<le> b + 1"
    by linarith+
  from v consider "x t + y t + z t = 1" | "x t + y t + z t = - 1"
    by (auto simp: validSign_def coordSum_def)
  then show ?thesis
  proof cases
    case 1
    then show ?thesis
      by (simp add: getNeighbour_def getNeighbourCoords_def Let_def newTriangle_def
          coordBound_def c1 b1 m [OF c(1)] m [OF c(2)] m [OF c(3)])
  next
    case 2
    then show ?thesis
      by (simp add: getNeighbour_def getNeighbourCoords_def Let_def newTriangle_def
          coordBound_def c1 b1 p [OF c(1)] p [OF c(2)] p [OF c(3)])
  qed
qed

lemma extends_length: "extends ts us \<Longrightarrow> length us = length ts + 1"
  by (auto simp: extends_def)

lemma coordBound_extends:
  assumes v: "\<forall>t \<in> set ts. validSign t" and b: "\<forall>t \<in> set ts. coordBound (int (length ts)) t"
    and e: "extends ts us" and small: "int (length us) < 2 ^ 63"
  shows "\<forall>t \<in> set us. coordBound (int (length us)) t"
proof -
  from e have len: "int (length us) = int (length ts) + 1"
    by (simp add: extends_length)
  have old: "\<forall>t \<in> set ts. coordBound (int (length ts) + 1) t"
    using b coordBound_mono by force
  have new: "coordBound (int (length ts) + 1) (getNeighbour t axis)" if "t \<in> set ts" for t axis
    using that v b small len by (intro coordBound_getNeighbour) auto
  from e consider "ts = []" "us = [newTriangle 0 1 0]"
    | "1 \<le> length ts" "us = ts @ [getNeighbour (ts ! 0) (int (length ts))]"
    | t axis where "t \<in> set ts" "us = ts @ [getNeighbour t axis]"
    unfolding extends_def by blast
  then show ?thesis
  proof cases
    case 1
    then show ?thesis by (simp add: coordBound_def newTriangle_def)
  next
    case 2
    then have "ts ! 0 \<in> set ts" by (auto intro: nth_mem)
    from new [OF this] old 2 show ?thesis by (simp add: add.commute)
  next
    case 3
    from new [OF 3(1)] old 3 show ?thesis by (simp add: add.commute)
  qed
qed

lemma generatePatterns_pairwise_distinct:
  assumes "2 \<le> N" and small: "48 * N < 2 ^ 63"
  shows "\<exists>pc. generatePatterns N newPattern newPatternsCollection = Some pc
     \<and> (\<forall>i j. i < length (patterns pc) \<and> j < length (patterns pc) \<and> i \<noteq> j
           \<longrightarrow> pattern_isEqual (patterns pc ! i) (patterns pc ! j) = Some False)"
proof -
  let ?I = "\<lambda>n ts. 1 \<le> n \<and> int (length ts) + n = N
      \<and> (\<forall>t \<in> set ts. validSign t \<and> coordBound (int (length ts)) t)"
  let ?Q = "\<lambda>tss. (\<forall>ts \<in> set tss. \<forall>t \<in> set ts. coordBound (4 * N) t)
      \<and> (\<forall>i j. i < j \<and> j < length tss \<longrightarrow> \<not> equivalentCells (tss ! i) (tss ! j))"
  have N0: "0 \<le> N" and s1: "N < 2 ^ 63" and s4: "4 * N < 2 ^ 63" and s12: "3 * (4 * N) < 2 ^ 63"
    and s48: "12 * (4 * N) < 2 ^ 63"
    using assms by linarith+
  have ext: "(\<forall>t \<in> set us. validSign t \<and> coordBound (int (length us)) t)
      \<and> length us = length ts + 1"
    if I: "?I n ts" and e: "extends ts us" for n ts us
  proof -
    from e have len: "length us = length ts + 1" by (rule extends_length)
    with I s1 have "int (length us) < 2 ^ 63" by linarith
    with I e have "\<forall>t \<in> set us. coordBound (int (length us)) t"
      by (intro coordBound_extends [of ts us]) blast+
    moreover from I e have "\<forall>t \<in> set us. validSign t"
      by (intro validSign_extends [of ts us]) blast+
    ultimately show ?thesis using len by blast
  qed
  have "\<exists>pc. generatePatterns N newPattern newPatternsCollection = Some pc
      \<and> ?Q (map triangles (patterns pc))"
  proof (rule generatePatterns_invariant [where I = ?I and Q = ?Q])
    show "?I (n - 1) us" if "?I n ts" "extends ts us" "1 < n" for n ts us
    proof -
      from ext [OF that(1,2)]
      have e1: "\<forall>t \<in> set us. validSign t \<and> coordBound (int (length us)) t"
        and e2: "length us = length ts + 1" by blast+
      from that e2 have "1 \<le> n - 1" "int (length us) + (n - 1) = N" by simp_all
      with e1 show ?thesis by blast
    qed
    show "?Q (tss @ [[newTriangle 0 1 0]])" if "?I n []" "n \<le> 1" for n tss
      using that assms(1) by simp
    show "?Q (if \<exists>vs \<in> set tss. equivalentCells vs us then tss else tss @ [centeredCells us])"
      if I: "?I n ts" and e: "extends ts us" and n: "n \<le> 1" and Q: "?Q tss" for n ts us tss
    proof (cases "\<exists>vs \<in> set tss. equivalentCells vs us")
      case True
      with Q show ?thesis by simp
    next
      case False
      from ext [OF I e]
      have e1: "\<forall>t \<in> set us. validSign t \<and> coordBound (int (length us)) t"
        and e2: "length us = length ts + 1" by blast+
      from I n e2 have "int (length us) = N" by simp
      with e1 have usN: "\<forall>t \<in> set us. coordBound N t" by simp
      then have us4: "\<forall>t \<in> set us. coordBound (4 * N) t"
        using N0 by (auto intro: coordBound_mono)
      from centeredCells_cellValue(2) [OF usN N0 s4]
      have cb: "\<forall>t \<in> set (centeredCells us). coordBound (4 * N) t" .
      have "\<not> equivalentCells ((tss @ [centeredCells us]) ! i) ((tss @ [centeredCells us]) ! j)"
        if "i < j" "j < length (tss @ [centeredCells us])" for i j
      proof (cases "j < length tss")
        case True
        with that Q show ?thesis by (simp add: nth_append)
      next
        case nj: False
        with that have j: "j = length tss" and i: "i < length tss" by simp_all
        from i have mem: "tss ! i \<in> set tss" by simp
        with False have ne: "\<not> equivalentCells (tss ! i) us" by blast
        from mem Q have "\<forall>t \<in> set (tss ! i). coordBound (4 * N) t" by blast
        from equivalentCells_centeredCells [OF this us4 _ s48] N0 ne
        have "\<not> equivalentCells (tss ! i) (centeredCells us)" by simp
        with i j show ?thesis by (simp add: nth_append)
      qed
      with False Q cb show ?thesis by (simp add: nth_append)
    qed
    show "?I N (triangles newPattern)" using assms by (simp add: newPattern_def)
    show "?Q (map triangles (patterns newPatternsCollection))"
      by (simp add: newPatternsCollection_def)
  qed
  then obtain pc where gp: "generatePatterns N newPattern newPatternsCollection = Some pc"
    and Qb: "\<forall>ts \<in> set (map triangles (patterns pc)). \<forall>t \<in> set ts. coordBound (4 * N) t"
    and Q: "\<forall>i j. i < j \<and> j < length (map triangles (patterns pc))
        \<longrightarrow> \<not> equivalentCells (map triangles (patterns pc) ! i) (map triangles (patterns pc) ! j)"
    by blast
  have bd: "\<forall>t \<in> set (triangles (patterns pc ! i)). coordBound (4 * N) t"
    if "i < length (patterns pc)" for i
  proof -
    from that have "patterns pc ! i \<in> set (patterns pc)" by simp
    then have "triangles (patterns pc ! i) \<in> set (map triangles (patterns pc))"
      by (simp only: set_map) (rule imageI)
    with Qb show ?thesis by blast
  qed
  have "pattern_isEqual (patterns pc ! i) (patterns pc ! j) = Some False"
    if "i < length (patterns pc)" "j < length (patterns pc)" "i \<noteq> j" for i j
  proof (cases "i < j")
    case True
    with Q that show ?thesis by (simp add: pattern_isEqual_eq)
  next
    case False
    with that have "j < i" by simp
    with Q that have "\<not> equivalentCells (triangles (patterns pc ! j)) (triangles (patterns pc ! i))"
      by simp
    then have "\<not> equivalentCells (triangles (patterns pc ! i)) (triangles (patterns pc ! j))"
      using equivalentCells_sym [OF bd [OF that(1)] bd [OF that(2)] s12] by blast
    then show ?thesis by (simp add: pattern_isEqual_eq)
  qed
  with gp show ?thesis by blast
qed

text \<open>
  C3. After \<open>generatePatterns\<close> has run for a target size \<open>N\<close> in the supported range,
  no two patterns stored at different places of the collection are equal in the sense
  of \<open>isEqual\<close>, in either order.
\<close>

theorem no_duplicates:
  "minNumTriangles \<le> N \<Longrightarrow> N \<le> maxNumTriangles \<Longrightarrow>
     \<exists>pc. generatePatterns N newPattern newPatternsCollection = Some pc
       \<and> (\<forall>i j. i < length (patterns pc) \<and> j < length (patterns pc) \<and> i \<noteq> j
             \<longrightarrow> pattern_isEqual (patterns pc ! i) (patterns pc ! j) = Some False)"
  by (rule generatePatterns_pairwise_distinct)
    (simp_all add: minNumTriangles_def maxNumTriangles_def)

section \<open>The enumeration for size 4\<close>

lemma generatePatterns_4:
  "generatePatterns 4 newPattern newPatternsCollection = Some \<lparr>patterns = tetriamonds\<rparr>"
  by code_simp

lemma tetriamonds_nth:
  "tetriamonds ! 0 = freshPattern [newTriangle 0 1 0, newTriangle 0 0 (- 1),
                                   newTriangle (- 1) 1 (- 1), newTriangle (- 1) 0 0]"
  "tetriamonds ! 1 = freshPattern [newTriangle 0 1 0, newTriangle 0 0 (- 1),
                                   newTriangle (- 1) 1 (- 1), newTriangle 1 0 0]"
  "tetriamonds ! 2 = freshPattern [newTriangle 0 1 0, newTriangle 0 0 (- 1),
                                   newTriangle (- 1) 1 (- 1), newTriangle 1 1 (- 1)]"
  "length tetriamonds = 3"
  by (simp_all add: tetriamonds_def)

lemma extends_nucleus:
  assumes "extends [newTriangle 0 1 0, newTriangle 0 0 (- 1), newTriangle (- 1) 1 (- 1)] us"
  shows "us \<in> {[newTriangle 0 1 0, newTriangle 0 0 (- 1), newTriangle (- 1) 1 (- 1),
                 newTriangle (- 1) 0 0],
                [newTriangle 0 1 0, newTriangle 0 0 (- 1), newTriangle (- 1) 1 (- 1),
                 newTriangle 1 0 0],
                [newTriangle 0 1 0, newTriangle 0 0 (- 1), newTriangle (- 1) 1 (- 1),
                 newTriangle 1 1 (- 1)],
                [newTriangle 0 1 0, newTriangle 0 0 (- 1), newTriangle (- 1) 1 (- 1),
                 newTriangle (- 1) 2 0],
                [newTriangle 0 1 0, newTriangle 0 0 (- 1), newTriangle (- 1) 1 (- 1),
                 newTriangle 0 2 (- 1)]}"
proof -
  have nb:
    "getNeighbour (newTriangle 0 1 0) 1 = newTriangle 0 0 (- 1)"
    "getNeighbour (newTriangle 0 1 0) 2 = newTriangle (- 1) 1 (- 1)"
    "getNeighbour (newTriangle 0 1 0) 3 = newTriangle (- 1) 0 0"
    "getNeighbour (newTriangle 0 0 (- 1)) 1 = newTriangle 0 1 0"
    "getNeighbour (newTriangle 0 0 (- 1)) 2 = newTriangle 1 0 0"
    "getNeighbour (newTriangle 0 0 (- 1)) 3 = newTriangle 1 1 (- 1)"
    "getNeighbour (newTriangle (- 1) 1 (- 1)) 1 = newTriangle (- 1) 2 0"
    "getNeighbour (newTriangle (- 1) 1 (- 1)) 2 = newTriangle 0 1 0"
    "getNeighbour (newTriangle (- 1) 1 (- 1)) 3 = newTriangle 0 2 (- 1)"
    by (simp_all add: getNeighbour_def getNeighbourCoords_def newTriangle_def)
  from assms obtain t axis
    where t: "t \<in> {newTriangle 0 1 0, newTriangle 0 0 (- 1), newTriangle (- 1) 1 (- 1)}"
      and axis: "axis \<in> {1, 2, 3}"
      and new: "getNeighbour t axis
                  \<notin> {newTriangle 0 1 0, newTriangle 0 0 (- 1), newTriangle (- 1) 1 (- 1)}"
      and us: "us = [newTriangle 0 1 0, newTriangle 0 0 (- 1), newTriangle (- 1) 1 (- 1),
                    getNeighbour t axis]"
    unfolding extends_def by auto
  from t axis new show ?thesis unfolding us
    by (elim insertE emptyE) (simp_all only: nb, simp_all)
qed

lemma leaves_4_equivalent:
  "pattern_isEqual (tetriamonds ! 0)
     (freshPattern [newTriangle 0 1 0, newTriangle 0 0 (- 1), newTriangle (- 1) 1 (- 1),
                    newTriangle (- 1) 0 0]) = Some True"
  "pattern_isEqual (tetriamonds ! 1)
     (freshPattern [newTriangle 0 1 0, newTriangle 0 0 (- 1), newTriangle (- 1) 1 (- 1),
                    newTriangle 1 0 0]) = Some True"
  "pattern_isEqual (tetriamonds ! 2)
     (freshPattern [newTriangle 0 1 0, newTriangle 0 0 (- 1), newTriangle (- 1) 1 (- 1),
                    newTriangle 1 1 (- 1)]) = Some True"
  "pattern_isEqual (tetriamonds ! 1)
     (freshPattern [newTriangle 0 1 0, newTriangle 0 0 (- 1), newTriangle (- 1) 1 (- 1),
                    newTriangle (- 1) 2 0]) = Some True"
  "pattern_isEqual (tetriamonds ! 2)
     (freshPattern [newTriangle 0 1 0, newTriangle 0 0 (- 1), newTriangle (- 1) 1 (- 1),
                    newTriangle 0 2 (- 1)]) = Some True"
  by code_simp+

text \<open>
  C1 (corrected). Running the enumeration for target size 4, \<open>generatePatterns 4\<close> on
  the empty pattern and the empty collection, leaves exactly three patterns in the
  result collection; no two of them are equal in the sense of \<open>isEqual\<close>, and every
  sketch of four triangles that the search builds (every extension of the nucleus of
  three triangles) is equal, in the sense of \<open>isEqual\<close>, to one of the three.
\<close>

theorem enumerate_4_three_patterns:
  "generatePatterns 4 newPattern newPatternsCollection = Some \<lparr>patterns = tetriamonds\<rparr>
   \<and> length tetriamonds = 3
   \<and> pattern_isEqual (tetriamonds ! 0) (tetriamonds ! 1) = Some False
   \<and> pattern_isEqual (tetriamonds ! 0) (tetriamonds ! 2) = Some False
   \<and> pattern_isEqual (tetriamonds ! 1) (tetriamonds ! 2) = Some False
   \<and> pattern_isEqual (tetriamonds ! 1) (tetriamonds ! 0) = Some False
   \<and> pattern_isEqual (tetriamonds ! 2) (tetriamonds ! 0) = Some False
   \<and> pattern_isEqual (tetriamonds ! 2) (tetriamonds ! 1) = Some False
   \<and> (extends [newTriangle 0 1 0, newTriangle 0 0 (- 1), newTriangle (- 1) 1 (- 1)] us
        \<longrightarrow> (\<exists>p \<in> set tetriamonds. pattern_isEqual p (freshPattern us) = Some True))"
proof -
  from generatePatterns_pairwise_distinct [of 4] generatePatterns_4
  have nd: "i < 3 \<Longrightarrow> j < 3 \<Longrightarrow> i \<noteq> j \<Longrightarrow>
      pattern_isEqual (tetriamonds ! i) (tetriamonds ! j) = Some False" for i j
    by (simp add: tetriamonds_nth(4))
  have pairs: "pattern_isEqual (tetriamonds ! 0) (tetriamonds ! 1) = Some False"
    "pattern_isEqual (tetriamonds ! 0) (tetriamonds ! 2) = Some False"
    "pattern_isEqual (tetriamonds ! 1) (tetriamonds ! 2) = Some False"
    "pattern_isEqual (tetriamonds ! 1) (tetriamonds ! 0) = Some False"
    "pattern_isEqual (tetriamonds ! 2) (tetriamonds ! 0) = Some False"
    "pattern_isEqual (tetriamonds ! 2) (tetriamonds ! 1) = Some False"
    by (rule nd; simp)+
  have mem: "tetriamonds ! i \<in> set tetriamonds" if "i < 3" for i
    using that by (simp add: tetriamonds_nth(4))
  have some: "\<exists>p \<in> set tetriamonds. pattern_isEqual p (freshPattern vs) = Some True"
    if "pattern_isEqual (tetriamonds ! i) (freshPattern vs) = Some True" "i < 3" for i vs
    using that mem by blast
  have "\<exists>p \<in> set tetriamonds. pattern_isEqual p (freshPattern us) = Some True"
    if "extends [newTriangle 0 1 0, newTriangle 0 0 (- 1), newTriangle (- 1) 1 (- 1)] us"
    using extends_nucleus [OF that]
      some [OF leaves_4_equivalent(1)] some [OF leaves_4_equivalent(2)]
      some [OF leaves_4_equivalent(3)] some [OF leaves_4_equivalent(4)]
      some [OF leaves_4_equivalent(5)]
    by auto
  then have cover:
    "extends [newTriangle 0 1 0, newTriangle 0 0 (- 1), newTriangle (- 1) 1 (- 1)] us
       \<longrightarrow> (\<exists>p \<in> set tetriamonds. pattern_isEqual p (freshPattern us) = Some True)"
    by blast
  show ?thesis by (intro conjI generatePatterns_4 tetriamonds_nth(4) pairs cover)
qed

theorem enumerate_4_three_patterns_witness:
  "extends [newTriangle 0 1 0, newTriangle 0 0 (- 1), newTriangle (- 1) 1 (- 1)]
     [newTriangle 0 1 0, newTriangle 0 0 (- 1), newTriangle (- 1) 1 (- 1), newTriangle 0 2 (- 1)]
   \<and> (\<exists>p \<in> set tetriamonds.
         pattern_isEqual p
           (freshPattern [newTriangle 0 1 0, newTriangle 0 0 (- 1), newTriangle (- 1) 1 (- 1),
                          newTriangle 0 2 (- 1)]) = Some True)
   \<and> generatePatterns 4 newPattern newPatternsCollection = Some \<lparr>patterns = tetriamonds\<rparr>
   \<and> length tetriamonds = 3"
proof -
  have e: "extends [newTriangle 0 1 0, newTriangle 0 0 (- 1), newTriangle (- 1) 1 (- 1)]
     [newTriangle 0 1 0, newTriangle 0 0 (- 1), newTriangle (- 1) 1 (- 1), newTriangle 0 2 (- 1)]"
    unfolding extends_def
    by (intro disjI2 conjI bexI [of _ "newTriangle (- 1) 1 (- 1)"] bexI [of _ 3])
       (simp_all add: getNeighbour_def getNeighbourCoords_def newTriangle_def)
  from enumerate_4_three_patterns
    [of "[newTriangle 0 1 0, newTriangle 0 0 (- 1), newTriangle (- 1) 1 (- 1),
          newTriangle 0 2 (- 1)]"] e
  show ?thesis by blast
qed

text \<open>
  Counterexample to C1 as stated (exactly one pattern): the collection that the
  enumeration for size 4 leaves has three patterns, not one.
\<close>

theorem enumerate_4_not_one_pattern:
  "generatePatterns 4 newPattern newPatternsCollection = Some \<lparr>patterns = tetriamonds\<rparr>
   \<and> length (patterns \<lparr>patterns = tetriamonds\<rparr>) = 3
   \<and> length (patterns \<lparr>patterns = tetriamonds\<rparr>) \<noteq> 1"
  using generatePatterns_4 by (simp add: tetriamonds_nth(4))

theorem no_duplicates_witness:
  "minNumTriangles \<le> 4 \<and> 4 \<le> maxNumTriangles
   \<and> generatePatterns 4 newPattern newPatternsCollection = Some \<lparr>patterns = tetriamonds\<rparr>
   \<and> pattern_isEqual (tetriamonds ! 0) (tetriamonds ! 1) = Some False
   \<and> pattern_isEqual (tetriamonds ! 2) (tetriamonds ! 1) = Some False"
proof -
  have r: "minNumTriangles \<le> 4" "4 \<le> maxNumTriangles"
    by (simp_all add: minNumTriangles_def maxNumTriangles_def)
  from no_duplicates [OF r] generatePatterns_4
  have nd: "i < 3 \<Longrightarrow> j < 3 \<Longrightarrow> i \<noteq> j \<Longrightarrow>
      pattern_isEqual (tetriamonds ! i) (tetriamonds ! j) = Some False" for i j
    by (simp add: tetriamonds_nth(4))
  have "pattern_isEqual (tetriamonds ! 0) (tetriamonds ! 1) = Some False"
    "pattern_isEqual (tetriamonds ! 2) (tetriamonds ! 1) = Some False"
    by (rule nd; simp)+
  with r generatePatterns_4 show ?thesis by (simp only: simp_thms)
qed

theorem stored_patterns_size_connected_witness:
  "minNumTriangles \<le> 4 \<and> 4 \<le> maxNumTriangles
   \<and> generatePatterns 4 newPattern newPatternsCollection = Some \<lparr>patterns = tetriamonds\<rparr>
   \<and> pattern_len (tetriamonds ! 0) = 4 \<and> connectedCells (triangles (tetriamonds ! 0))
   \<and> pattern_len (tetriamonds ! 1) = 4 \<and> connectedCells (triangles (tetriamonds ! 1))
   \<and> pattern_len (tetriamonds ! 2) = 4 \<and> connectedCells (triangles (tetriamonds ! 2))"
proof -
  have r: "minNumTriangles \<le> 4" "4 \<le> maxNumTriangles"
    by (simp_all add: minNumTriangles_def maxNumTriangles_def)
  from stored_patterns_size_connected [OF r] generatePatterns_4
  have "\<forall>p \<in> set tetriamonds. pattern_len p = 4 \<and> connectedCells (triangles p)"
    by simp
  then have "pattern_len (tetriamonds ! i) = 4 \<and> connectedCells (triangles (tetriamonds ! i))"
    if "i < 3" for i
    using that by (simp add: tetriamonds_nth(4))
  from this [of 0] this [of 1] this [of 2] r generatePatterns_4 show ?thesis
    by simp
qed

end
